theory Spec2Isabelle
  imports
    Main
    "HOL-Library.Word"
    "HOL-Library.Char_ord"
    "HOL-Library.List_Lexorder"
begin

section \<open>Node discovery database (p2p/discover5/database.go)\<close>

subsection \<open>Runtime failures\<close>

text \<open>
  The Go runtime failures the model makes explicit: a slice expression out of range
  (\<open>SliceBounds\<close>), \<open>make\<close> with a capacity out of range (\<open>MakeSlice\<close>), \<open>make\<close> of a
  slice the program has no memory for (\<open>OutOfMemory\<close>), closing a channel that is closed
  already (\<open>CloseOfClosedChannel\<close>) and a method called through a nil pointer
  (\<open>NilDeref\<close>); \<open>ErrNoGenesis\<close> and \<open>SeedFailure\<close> are the two error returns of
  \<open>NewHeaderChain\<close>.
\<close>

datatype error =
  SliceBounds | MakeSlice | OutOfMemory | CloseOfClosedChannel | NilDeref | ErrNoGenesis
  | SeedFailure

text \<open>
  \<open>make([]T, 0, cap)\<close> on a 64-bit platform. The runtime panics (\<open>makeslice: cap out of
  range\<close>) when the capacity is negative or the slice would take more than \<open>maxAlloc\<close>
  bytes, and the program dies when the slice takes more than the memory it can still
  get; \<open>mem\<close> is that memory in bytes, \<open>elem\<close> the size of an element. \<open>None\<close> is a slice
  returned.
\<close>

definition maxAlloc :: int where
  "maxAlloc = 2 ^ 48"

definition makeslice :: "int \<Rightarrow> int \<Rightarrow> int \<Rightarrow> error option" where
  "makeslice mem elem cap =
     (if cap < 0 \<or> maxAlloc < cap * elem then Some MakeSlice
      else if mem < cap * elem then Some OutOfMemory
      else None)"

text \<open>The size of a pointer, the element of \<open>[]*Node\<close>.\<close>

definition ptrSize :: int where
  "ptrSize = 8"

text \<open>Go's \<open>int64\<close> arithmetic wraps.\<close>

definition wrap64 :: "int \<Rightarrow> int" where
  "wrap64 x = (x + 2 ^ 63) mod 2 ^ 64 - 2 ^ 63"

subsection \<open>Identities, keys and constants\<close>

text \<open>
  Modelled from the spec: the type \<open>NodeID\<close>, declared outside the file, is a
  fixed-length opaque identifier; here an array of \<open>NodeID_len\<close> bytes, with \<open>NodeID{}\<close>
  the array of zero bytes. Byte slices and Go strings are both \<open>string\<close> (a list of
  8-bit characters).
\<close>

type_synonym NodeID = string

definition NodeID_len :: nat where
  "NodeID_len = 64"

definition nodeDBNilNodeID :: NodeID where
  "nodeDBNilNodeID = replicate NodeID_len (CHR 0x00)"

definition nodeDBItemPrefix :: string where
  "nodeDBItemPrefix = ''n:''"

definition nodeDBDiscoverRoot :: string where
  "nodeDBDiscoverRoot = '':discover''"

definition nodeDBDiscoverPong :: string where
  "nodeDBDiscoverPong = nodeDBDiscoverRoot @ '':lastpong''"

text \<open>
  Durations are integers counting nanoseconds, and an instant is the integer count of
  nanoseconds from the Unix epoch to it. The library keeps an instant as the seconds since
  the year 1 in a signed 64-bit field, beside the nanoseconds within the second:
  \<open>time.Unix(sec, 0)\<close> adds \<open>unixToInternal\<close>, the seconds from the year 1 to the Unix
  epoch, to \<open>sec\<close> in 64-bit arithmetic, and that sum wraps for a \<open>sec\<close> within
  \<open>unixToInternal\<close> of the largest \<open>int64\<close>. \<open>After\<close> compares the two fields in order,
  which is the order of the counts.
\<close>

definition hour :: int where
  "hour = 3600 * 1000000000"

definition nodeDBNodeExpiration :: int where
  "nodeDBNodeExpiration = 24 * hour"

definition unixToInternal :: int where
  "unixToInternal = (1969 * 365 + 1969 div 4 - 1969 div 100 + 1969 div 400) * 86400"

definition time_Unix :: "int \<Rightarrow> int" where
  "time_Unix sec = (wrap64 (sec + unixToInternal) - unixToInternal) * 1000000000"

definition time_After :: "int \<Rightarrow> int \<Rightarrow> bool" where
  "time_After t u = (u < t)"

definition maxDuration :: int where
  "maxDuration = 2 ^ 63 - 1"

definition minDuration :: int where
  "minDuration = - (2 ^ 63)"

text \<open>
  \<open>t.Sub(u)\<close> computes the difference in 64-bit arithmetic, keeps it when adding it to
  \<open>u\<close> gives \<open>t\<close> back, and returns the smallest or the largest duration otherwise: it is
  the difference, saturated.
\<close>

definition time_Sub :: "int \<Rightarrow> int \<Rightarrow> int" where
  "time_Sub t u =
     (let d = t - u
      in if maxDuration < d then maxDuration
         else if d < minDuration then minDuration
         else d)"

subsection \<open>makeKey and splitKey\<close>

text \<open>
  The body of \<open>makeKey\<close> in the source is the single \<open>if\<close> statement: the zero identity
  returns the bare field name, and for every other identity control reaches the end of
  the body, where the source has no return statement. \<open>None\<close> is that path.
\<close>

definition makeKey :: "NodeID \<Rightarrow> string \<Rightarrow> string option" where
  "makeKey nid field = (if nid = nodeDBNilNodeID then Some field else None)"

text \<open>
  \<open>splitKey\<close>: a key without the item prefix is a field of the zero identity. Otherwise
  the identity is the first \<open>NodeID_len\<close> bytes after the prefix and the field is the
  rest; both slice expressions need that many bytes after the prefix, and
  \<open>item[len(id):]\<close> panics on a shorter item.
\<close>

definition splitKey :: "string \<Rightarrow> error + (NodeID \<times> string)" where
  "splitKey key =
     (if take (length nodeDBItemPrefix) key \<noteq> nodeDBItemPrefix
      then Inr (nodeDBNilNodeID, key)
      else let item = drop (length nodeDBItemPrefix) key
           in if length item < NodeID_len then Inl SliceBounds
              else Inr (take NodeID_len item, drop NodeID_len item))"

text \<open>
  The callers of \<open>makeKey\<close> use its result as a key. What they receive for a non-zero
  identity is not fixed by the source, so it is a parameter of every caller:
  \<open>key rest nid field\<close> is \<open>makeKey nid field\<close> where the source returns, and \<open>rest nid field\<close>
  on the path that has no return statement.
\<close>

definition key :: "(NodeID \<Rightarrow> string \<Rightarrow> string) \<Rightarrow> NodeID \<Rightarrow> string \<Rightarrow> string" where
  "key rest nid field = (case makeKey nid field of Some k \<Rightarrow> k | None \<Rightarrow> rest nid field)"

text \<open>The layout that \<open>splitKey\<close> decodes: item prefix, identity, field.\<close>

definition prefixed :: "NodeID \<Rightarrow> string \<Rightarrow> string" where
  "prefixed nid field = nodeDBItemPrefix @ nid @ field"

subsection \<open>The store\<close>

text \<open>
  Modelled from the spec: the store behind \<open>db.lvl\<close> (a library outside the
  repository) is an ordered key-value store with get, put, delete and forward iteration
  with prefix and range seeking, an iterator walking a snapshot: the entries as they were
  when it was created. Its state is the list of entries in ascending key order and
  whether the handle has been closed; a closed handle fails every read and write and
  hands out empty iterators.
\<close>

record leveldb =
  entries :: "(string \<times> string) list"
  closed :: bool

definition lvl_Get :: "leveldb \<Rightarrow> string \<Rightarrow> string option" where
  "lvl_Get l k = (if closed l then None else map_of (entries l) k)"

definition lvl_Delete :: "leveldb \<Rightarrow> string \<Rightarrow> leveldb" where
  "lvl_Delete l k =
     (if closed l then l else l\<lparr>entries := filter (\<lambda>e. fst e \<noteq> k) (entries l)\<rparr>)"

definition lvl_NewIterator :: "leveldb \<Rightarrow> (string \<times> string) list" where
  "lvl_NewIterator l = (if closed l then [] else entries l)"

definition has_prefix :: "string \<Rightarrow> string \<Rightarrow> bool" where
  "has_prefix p k = (take (length p) k = p)"

definition lvl_NewIteratorPrefix :: "leveldb \<Rightarrow> string \<Rightarrow> (string \<times> string) list" where
  "lvl_NewIteratorPrefix l p = filter (\<lambda>e. has_prefix p (fst e)) (lvl_NewIterator l)"

text \<open>\<open>it.Seek(k)\<close>: the iterator stands on the first entry whose key is at or after \<open>k\<close>.\<close>

definition it_Seek :: "(string \<times> string) list \<Rightarrow> string \<Rightarrow> (string \<times> string) list" where
  "it_Seek snapshot k = dropWhile (\<lambda>e. fst e < k) snapshot"

subsection \<open>The database and what it calls from outside\<close>

text \<open>
  \<open>runner\<close> is the \<open>sync.Once\<close> (true once it has fired) and \<open>quit\<close> the quit channel
  (true once it is closed).
\<close>

record nodeDB =
  lvl :: leveldb
  self :: NodeID
  runner :: bool
  quit :: bool

text \<open>
  Modelled from the spec: a node record (\<open>Node\<close>, declared outside the file) holds the
  peer's identity and its network endpoint; only the identity is read here. The decoders
  are an opaque service and so parameters: \<open>Varint\<close> is \<open>binary.Varint\<close> (value, bytes
  read) and \<open>DecodeNode\<close> is \<open>rlp.DecodeBytes\<close> into a \<open>Node\<close> (\<open>None\<close> is a decoding
  error). \<open>key_rest\<close> is the parameter of \<open>key\<close>, and \<open>memory\<close> the memory \<open>make\<close> can
  get, in bytes.
\<close>

record Node =
  ID :: NodeID
  Endpoint :: string

record deps =
  key_rest :: "NodeID \<Rightarrow> string \<Rightarrow> string"
  Varint :: "string \<Rightarrow> int \<times> int"
  DecodeNode :: "string \<Rightarrow> Node option"
  memory :: int

definition fetchInt64 :: "deps \<Rightarrow> nodeDB \<Rightarrow> string \<Rightarrow> int" where
  "fetchInt64 d db k =
     (case lvl_Get (lvl db) k of
        None \<Rightarrow> 0
      | Some blob \<Rightarrow> (case Varint d blob of (val, read) \<Rightarrow> if read \<le> 0 then 0 else val))"

definition lastPong :: "deps \<Rightarrow> nodeDB \<Rightarrow> NodeID \<Rightarrow> int" where
  "lastPong d db nid = time_Unix (fetchInt64 d db (key (key_rest d) nid nodeDBDiscoverPong))"

subsection \<open>deleteNode and the expiry sweep\<close>

text \<open>
  \<open>deleteNode\<close> deletes every key under the prefix \<open>makeKey(id, "")\<close>. Its early return is
  a failed \<open>Delete\<close>, which only a closed handle produces, and a closed handle gives the
  loop nothing to iterate; the value it returns is not read by its caller.
\<close>

fun deleteNode_loop :: "leveldb \<Rightarrow> (string \<times> string) list \<Rightarrow> leveldb" where
  "deleteNode_loop l [] = l"
| "deleteNode_loop l (e # deleter) = deleteNode_loop (lvl_Delete l (fst e)) deleter"

definition deleteNode :: "deps \<Rightarrow> nodeDB \<Rightarrow> NodeID \<Rightarrow> nodeDB" where
  "deleteNode d db nid =
     db\<lparr>lvl := deleteNode_loop (lvl db)
                  (lvl_NewIteratorPrefix (lvl db) (key (key_rest d) nid []))\<rparr>"

text \<open>
  The loop of \<open>expireNodes\<close> over the iterator's snapshot. Beside the database it returns
  the identities \<open>deleteNode\<close> was called with, in call order.
\<close>

fun expireNodes_loop ::
  "deps \<Rightarrow> int \<Rightarrow> nodeDB \<Rightarrow> NodeID list \<Rightarrow> (string \<times> string) list
   \<Rightarrow> error + (nodeDB \<times> NodeID list)" where
  "expireNodes_loop d threshold db calls [] = Inr (db, calls)"
| "expireNodes_loop d threshold db calls (e # it) =
     (case splitKey (fst e) of
        Inl err \<Rightarrow> Inl err
      | Inr (nid, field) \<Rightarrow>
          if field \<noteq> nodeDBDiscoverRoot then expireNodes_loop d threshold db calls it
          else if nid \<noteq> self db \<and> time_After (lastPong d db nid) threshold
          then expireNodes_loop d threshold db calls it
          else expireNodes_loop d threshold (deleteNode d db nid) (calls @ [nid]) it)"

definition expireNodes :: "deps \<Rightarrow> int \<Rightarrow> nodeDB \<Rightarrow> error + (nodeDB \<times> NodeID list)" where
  "expireNodes d now db =
     expireNodes_loop d (now - nodeDBNodeExpiration) db [] (lvl_NewIterator (lvl db))"

subsection \<open>The expirer and close\<close>

text \<open>
  The expirer goroutine is an endless \<open>for\<close> around a \<open>select\<close> whose only case receives
  from the ticker. What reaches the database from outside is a sequence of events: the
  ticker firing (at a wall-clock time) and a call of \<open>close\<close>. \<open>expirer_select\<close> is one
  pass through the \<open>select\<close> for one event: a tick runs the sweep, and no case of the
  \<open>select\<close> reads the quit channel or leaves the loop.
\<close>

datatype event = Tick int | CloseCall

datatype goroutine = NotStarted | Looping | Returned

record system =
  database :: nodeDB
  expirer :: goroutine
  sweeps :: nat

definition close :: "nodeDB \<Rightarrow> error + nodeDB" where
  "close db =
     (if quit db then Inl CloseOfClosedChannel
      else Inr (db\<lparr>quit := True, lvl := (lvl db)\<lparr>closed := True\<rparr>\<rparr>))"

definition ensureExpirer :: "system \<Rightarrow> system" where
  "ensureExpirer s =
     (if runner (database s) then s
      else s\<lparr>database := (database s)\<lparr>runner := True\<rparr>, expirer := Looping\<rparr>)"

definition expirer_select :: "deps \<Rightarrow> event \<Rightarrow> system \<Rightarrow> error + system" where
  "expirer_select d ev s =
     (case ev of
        Tick now \<Rightarrow>
          (case expireNodes d now (database s) of
             Inl err \<Rightarrow> Inl err
           | Inr (db', calls) \<Rightarrow> Inr (s\<lparr>database := db', sweeps := Suc (sweeps s)\<rparr>))
      | CloseCall \<Rightarrow> Inr s)"

text \<open>
  \<open>run\<close> plays a sequence of events: a call of \<open>close\<close> acts on the database, and the
  expirer, when it is in its loop, passes through its \<open>select\<close> with the event.
\<close>

fun run :: "deps \<Rightarrow> event list \<Rightarrow> system \<Rightarrow> error + system" where
  "run d [] s = Inr s"
| "run d (ev # evs) s =
     (case (case ev of
              CloseCall \<Rightarrow>
                (case close (database s) of
                   Inl err \<Rightarrow> Inl err
                 | Inr db \<Rightarrow> Inr (s\<lparr>database := db\<rparr>))
            | Tick now \<Rightarrow> Inr s) of
        Inl err \<Rightarrow> Inl err
      | Inr s1 \<Rightarrow>
          if expirer s1 = Looping
          then (case expirer_select d ev s1 of Inl err \<Rightarrow> Inl err | Inr s2 \<Rightarrow> run d evs s2)
          else run d evs s1)"

subsection \<open>querySeeds\<close>

text \<open>
  \<open>nextNode\<close> starts at the entry the iterator stands on. On an exhausted iterator
  \<open>it.Key()\<close> is empty, which \<open>splitKey\<close> reads as the field \<open>""\<close> of the zero identity, and
  \<open>it.Next()\<close> fails: the result is nil.
\<close>

fun nextNode :: "deps \<Rightarrow> (string \<times> string) list \<Rightarrow> error + Node option" where
  "nextNode d [] = Inr None"
| "nextNode d (e # it) =
     (case splitKey (fst e) of
        Inl err \<Rightarrow> Inl err
      | Inr (nid, field) \<Rightarrow>
          if field \<noteq> nodeDBDiscoverRoot then nextNode d it
          else (case DecodeNode d (snd e) of
                  None \<Rightarrow> nextNode d it
                | Some n \<Rightarrow> Inr (Some n)))"

text \<open>
  \<open>rand.Read(id[:])\<close> overwrites the identity with the bytes read; \<open>rnd seeks\<close> is what
  the source of randomness delivers in the iteration numbered \<open>seeks\<close>.
\<close>

definition rand_Read :: "string \<Rightarrow> NodeID \<Rightarrow> NodeID" where
  "rand_Read bytes nid = take (length nid) bytes @ drop (length bytes) nid"

definition byte_add :: "char \<Rightarrow> char \<Rightarrow> char" where
  "byte_add a b = char_of ((of_char a + of_char b :: nat) mod 256)"

definition byte_mod16 :: "char \<Rightarrow> char" where
  "byte_mod16 a = char_of ((of_char a :: nat) mod 16)"

definition set_first :: "NodeID \<Rightarrow> char \<Rightarrow> NodeID" where
  "set_first nid c = nid[0 := c]"

text \<open>
  The \<open>seek\<close> loop. Its state is the nodes collected, the identity buffer and the
  counter \<open>seeks\<close>; the result carries the final counter beside the nodes. The loop is
  entered after \<open>make([]*Node, 0, n)\<close> has returned, so \<open>n\<close> is at most \<open>maxAlloc\<close> over
  the size of a pointer and the product \<open>n*5\<close> of the loop condition is below \<open>2 ^ 63\<close>:
  it is the product of the integers.
\<close>

function querySeeds_loop ::
  "deps \<Rightarrow> (int \<Rightarrow> string) \<Rightarrow> int \<Rightarrow> int \<Rightarrow> nodeDB \<Rightarrow> (string \<times> string) list \<Rightarrow> int
   \<Rightarrow> Node list \<Rightarrow> NodeID \<Rightarrow> int \<Rightarrow> error + (Node list \<times> int)" where
  "querySeeds_loop d rnd now maxAge db snapshot n nodes nid seeks =
     (if int (length nodes) < n \<and> seeks < n * 5 then
        (let ctr = hd nid;
             nid1 = rand_Read (rnd seeks) nid;
             nid2 = set_first nid1 (byte_add ctr (byte_mod16 (hd nid1)))
         in case nextNode d (it_Seek snapshot (key (key_rest d) nid2 nodeDBDiscoverRoot)) of
              Inl err \<Rightarrow> Inl err
            | Inr None \<Rightarrow>
                querySeeds_loop d rnd now maxAge db snapshot n nodes
                  (set_first nid2 (CHR 0x00)) (seeks + 1)
            | Inr (Some nd) \<Rightarrow>
                if ID nd = self db
                then querySeeds_loop d rnd now maxAge db snapshot n nodes nid2 (seeks + 1)
                else if maxAge < time_Sub now (lastPong d db (ID nd))
                then querySeeds_loop d rnd now maxAge db snapshot n nodes nid2 (seeks + 1)
                else if ID nd \<in> set (map ID nodes)
                then querySeeds_loop d rnd now maxAge db snapshot n nodes nid2 (seeks + 1)
                else querySeeds_loop d rnd now maxAge db snapshot n (nodes @ [nd]) nid2
                       (seeks + 1))
      else Inr (nodes, seeks))"
  by pat_completeness auto
termination
  by (relation "measure (\<lambda>(d, rnd, now, maxAge, db, snapshot, n, nodes, nid, seeks).
        nat (n * 5 - seeks))") auto

text \<open>
  \<open>querySeeds\<close> makes the slice of capacity \<open>n\<close> before anything else: where \<open>make\<close>
  fails, for a negative \<open>n\<close> and for an \<open>n\<close> too large, nothing is returned.
\<close>

definition querySeeds_run ::
  "deps \<Rightarrow> (int \<Rightarrow> string) \<Rightarrow> int \<Rightarrow> nodeDB \<Rightarrow> int \<Rightarrow> int \<Rightarrow> error + (Node list \<times> int)" where
  "querySeeds_run d rnd now db n maxAge =
     (case makeslice (memory d) ptrSize n of
        Some err \<Rightarrow> Inl err
      | None \<Rightarrow> querySeeds_loop d rnd now maxAge db (lvl_NewIterator (lvl db)) n []
                  nodeDBNilNodeID 0)"

definition querySeeds ::
  "deps \<Rightarrow> (int \<Rightarrow> string) \<Rightarrow> int \<Rightarrow> nodeDB \<Rightarrow> int \<Rightarrow> int \<Rightarrow> error + Node list" where
  "querySeeds d rnd now db n maxAge =
     (case querySeeds_run d rnd now db n maxAge of
        Inl err \<Rightarrow> Inl err
      | Inr (nodes, seeks) \<Rightarrow> Inr nodes)"

section \<open>Header chain (core/blockchain/headerchain.go)\<close>

subsection \<open>Headers and the chain database\<close>

text \<open>
  Modelled from the spec: a header (\<open>types.Header\<close>, declared outside the file) has a
  parent hash, its own hash, derived from its content, and a number. \<open>common.Hash\<close> is
  32 bytes, and the zero hash \<open>common.Hash{}\<close> stands for "no hash". The functions here
  read \<open>ParentHash\<close> and \<open>Number\<close> and call \<open>Hash()\<close>: the record carries the value of
  \<open>Hash()\<close> as the field \<open>Hash\<close>. Numbers are read through \<open>Number.Uint64()\<close>
  throughout, so \<open>Number\<close> is a 64-bit word and \<open>Number - 1\<close> wraps at zero, as
  \<open>header.Number.Uint64()-1\<close> does.
\<close>

type_synonym hash = "256 word"

record Header =
  ParentHash :: hash
  Number :: "64 word"
  Hash :: hash

text \<open>
  Modelled from the spec: the chain database is a key-value store, and the header store
  accessor (package \<open>rawdb\<close>, not in the file) reads and writes headers by hash and
  number, the number of a hash, the canonical hash of a number and the head pointers:
  \<open>ReadHeader\<close>, \<open>ReadHeaderNumber\<close>, \<open>ReadCanonicalHash\<close>, \<open>WriteHeadHeaderHash\<close>,
  \<open>ReadHeadBlockHash\<close>, \<open>DeleteHeader\<close>, \<open>DeleteCanonicalHash\<close>. The store is the list
  of its entries, read with \<open>map_of\<close>; the keys are the key spaces the accessors
  address, and \<open>otherKey\<close> is any other key (block bodies and the like). An absent hash
  reads as the zero hash. \<open>ReadHeadHeaderHash\<close> reads back what \<open>WriteHeadHeaderHash\<close>
  wrote.
\<close>

datatype dbkey =
    headerKey "64 word" hash
  | headerNumberKey hash
  | headerHashKey "64 word"
  | headHeaderKey
  | headBlockKey
  | otherKey string

datatype dbval = HeaderVal Header | NumberVal "64 word" | HashVal hash | BytesVal string

type_synonym chaindb = "(dbkey \<times> dbval) list"

definition ReadHeader :: "chaindb \<Rightarrow> hash \<Rightarrow> 64 word \<Rightarrow> Header option" where
  "ReadHeader db h n =
     (case map_of db (headerKey n h) of Some (HeaderVal hdr) \<Rightarrow> Some hdr | _ \<Rightarrow> None)"

definition ReadHeaderNumber :: "chaindb \<Rightarrow> hash \<Rightarrow> 64 word option" where
  "ReadHeaderNumber db h =
     (case map_of db (headerNumberKey h) of Some (NumberVal n) \<Rightarrow> Some n | _ \<Rightarrow> None)"

definition ReadCanonicalHash :: "chaindb \<Rightarrow> 64 word \<Rightarrow> hash" where
  "ReadCanonicalHash db n =
     (case map_of db (headerHashKey n) of Some (HashVal h) \<Rightarrow> h | _ \<Rightarrow> 0)"

definition ReadHeadBlockHash :: "chaindb \<Rightarrow> hash" where
  "ReadHeadBlockHash db = (case map_of db headBlockKey of Some (HashVal h) \<Rightarrow> h | _ \<Rightarrow> 0)"

definition ReadHeadHeaderHash :: "chaindb \<Rightarrow> hash" where
  "ReadHeadHeaderHash db = (case map_of db headHeaderKey of Some (HashVal h) \<Rightarrow> h | _ \<Rightarrow> 0)"

definition db_Put :: "chaindb \<Rightarrow> dbkey \<Rightarrow> dbval \<Rightarrow> chaindb" where
  "db_Put db k v = (k, v) # filter (\<lambda>e. fst e \<noteq> k) db"

definition db_Delete :: "chaindb \<Rightarrow> dbkey \<Rightarrow> chaindb" where
  "db_Delete db k = filter (\<lambda>e. fst e \<noteq> k) db"

definition WriteHeadHeaderHash :: "chaindb \<Rightarrow> hash \<Rightarrow> chaindb" where
  "WriteHeadHeaderHash db h = db_Put db headHeaderKey (HashVal h)"

text \<open>
  Modelled from the spec: a batch collects operations and applies them in one commit when
  it is written. \<open>DatabaseDeleter\<close>, the view of the batch that \<open>DeleteHeader\<close>,
  \<open>DeleteCanonicalHash\<close> and the delete callback receive, has the one method
  \<open>Delete(key)\<close>: a batch is the list of keys to delete. \<open>DeleteHeader\<close> deletes the
  header and the number entry of its hash.
\<close>

type_synonym batch = "dbkey list"

definition DeleteHeader :: "batch \<Rightarrow> hash \<Rightarrow> 64 word \<Rightarrow> batch" where
  "DeleteHeader b h n = b @ [headerKey n h, headerNumberKey h]"

definition DeleteCanonicalHash :: "batch \<Rightarrow> 64 word \<Rightarrow> batch" where
  "DeleteCanonicalHash b n = b @ [headerHashKey n]"

fun batch_Write :: "chaindb \<Rightarrow> batch \<Rightarrow> chaindb" where
  "batch_Write db [] = db"
| "batch_Write db (k # b) = batch_Write (db_Delete db k) b"

subsection \<open>The caches\<close>

text \<open>
  Modelled from the spec: the two caches (a library outside the repository) are bounded
  least-recently-used mappings, here most recently used entry first. \<open>Get\<close> moves the
  entry it finds to the front; \<open>Add\<close> replaces or inserts at the front and evicts the
  oldest entry beyond the limit.
\<close>

definition headerCacheLimit :: nat where
  "headerCacheLimit = 512"

definition numberCacheLimit :: nat where
  "numberCacheLimit = 2048"

definition lru_Get :: "('k \<times> 'v) list \<Rightarrow> 'k \<Rightarrow> 'v option \<times> ('k \<times> 'v) list" where
  "lru_Get c k =
     (case map_of c k of
        None \<Rightarrow> (None, c)
      | Some v \<Rightarrow> (Some v, (k, v) # filter (\<lambda>e. fst e \<noteq> k) c))"

definition lru_Add :: "nat \<Rightarrow> ('k \<times> 'v) list \<Rightarrow> 'k \<Rightarrow> 'v \<Rightarrow> ('k \<times> 'v) list" where
  "lru_Add limit c k v = take limit ((k, v) # filter (\<lambda>e. fst e \<noteq> k) c)"

subsection \<open>The header chain and its lookups\<close>

text \<open>
  \<open>currentHeader\<close> is the atomic value, which holds a \<open>*types.Header\<close>: \<open>None\<close> is the
  nil pointer that \<open>SetHead\<close> stores when a parent is missing. \<open>genesisHeader\<close> is a
  pointer too. A lookup returns its result and the chain with the cache updated.
\<close>

record HeaderChain =
  chainDb :: chaindb
  genesisHeader :: "Header option"
  currentHeader :: "Header option"
  currentHeaderHash :: hash
  headerCache :: "(hash \<times> Header) list"
  numberCache :: "(hash \<times> 64 word) list"

definition GetBlockNumber :: "HeaderChain \<Rightarrow> hash \<Rightarrow> 64 word option \<times> HeaderChain" where
  "GetBlockNumber hc h =
     (case lru_Get (numberCache hc) h of
        (Some n, c) \<Rightarrow> (Some n, hc\<lparr>numberCache := c\<rparr>)
      | (None, c) \<Rightarrow>
          (case ReadHeaderNumber (chainDb hc) h of
             None \<Rightarrow> (None, hc)
           | Some n \<Rightarrow>
               (Some n, hc\<lparr>numberCache := lru_Add numberCacheLimit (numberCache hc) h n\<rparr>)))"

definition GetHeader :: "HeaderChain \<Rightarrow> hash \<Rightarrow> 64 word \<Rightarrow> Header option \<times> HeaderChain" where
  "GetHeader hc h n =
     (case lru_Get (headerCache hc) h of
        (Some hdr, c) \<Rightarrow> (Some hdr, hc\<lparr>headerCache := c\<rparr>)
      | (None, c) \<Rightarrow>
          (case ReadHeader (chainDb hc) h n of
             None \<Rightarrow> (None, hc)
           | Some hdr \<Rightarrow>
               (Some hdr, hc\<lparr>headerCache := lru_Add headerCacheLimit (headerCache hc) h hdr\<rparr>)))"

definition GetHeaderByHash :: "HeaderChain \<Rightarrow> hash \<Rightarrow> Header option \<times> HeaderChain" where
  "GetHeaderByHash hc h =
     (case GetBlockNumber hc h of
        (None, hc1) \<Rightarrow> (None, hc1)
      | (Some n, hc1) \<Rightarrow> GetHeader hc1 h n)"

definition GetHeaderByNumber :: "HeaderChain \<Rightarrow> 64 word \<Rightarrow> Header option \<times> HeaderChain" where
  "GetHeaderByNumber hc n =
     (let h = ReadCanonicalHash (chainDb hc) n
      in if h = 0 then (None, hc) else GetHeader hc h n)"

definition CurrentHeader :: "HeaderChain \<Rightarrow> Header option" where
  "CurrentHeader hc = currentHeader hc"

text \<open>
  \<open>NewHeaderChain\<close>; \<open>seed\<close> is what the system's source of randomness returns for the
  seed (\<open>None\<close> is its error), and the generator made from it is not used by the
  functions here.
\<close>

definition NewHeaderChain :: "chaindb \<Rightarrow> int option \<Rightarrow> error + HeaderChain" where
  "NewHeaderChain db seed =
     (case seed of
        None \<Rightarrow> Inl SeedFailure
      | Some s \<Rightarrow>
          (let hc = \<lparr>chainDb = db, genesisHeader = None, currentHeader = None,
                     currentHeaderHash = 0, headerCache = [], numberCache = []\<rparr>
           in case GetHeaderByNumber hc 0 of
                (None, hc1) \<Rightarrow> Inl ErrNoGenesis
              | (Some g, hc1) \<Rightarrow>
                  (let hc2 = hc1\<lparr>genesisHeader := Some g, currentHeader := Some g\<rparr>;
                       head = ReadHeadBlockHash db;
                       hc3 = (if head \<noteq> 0
                              then (case GetHeaderByHash hc2 head of
                                      (None, hc') \<Rightarrow> hc'
                                    | (Some chead, hc') \<Rightarrow> hc'\<lparr>currentHeader := Some chead\<rparr>)
                              else hc2)
                   in case CurrentHeader hc3 of
                        None \<Rightarrow> Inl NilDeref
                      | Some cur \<Rightarrow> Inr (hc3\<lparr>currentHeaderHash := Hash cur\<rparr>))))"

subsection \<open>GetBlockHashesFromHash\<close>

text \<open>
  The loop runs while \<open>i < max\<close> with \<open>i\<close> counting up from zero: \<open>fuel\<close> is the number
  of iterations left, \<open>unat maxn\<close> at the start for the bound \<open>maxn\<close>.
\<close>

text \<open>\<open>common.HashLength\<close>, the size of an element of \<open>[]common.Hash\<close>.\<close>

definition hashSize :: int where
  "hashSize = 32"

fun GetBlockHashesFromHash_loop ::
  "nat \<Rightarrow> Header \<Rightarrow> HeaderChain \<Rightarrow> hash list \<Rightarrow> hash list \<times> HeaderChain" where
  "GetBlockHashesFromHash_loop 0 header hc chain = (chain, hc)"
| "GetBlockHashesFromHash_loop (Suc fuel) header hc chain =
     (let next = ParentHash header
      in case GetHeader hc next (Number header - 1) of
           (None, hc1) \<Rightarrow> (chain, hc1)
         | (Some header1, hc1) \<Rightarrow>
             if Number header1 = 0 then (chain @ [next], hc1)
             else GetBlockHashesFromHash_loop fuel header1 hc1 (chain @ [next]))"

text \<open>
  An unknown start hash returns nil before anything is allocated. For a known one the
  slice of capacity \<open>max\<close> is made first, out of the memory \<open>mem\<close>: where \<open>make\<close> fails,
  for a \<open>max\<close> too large, nothing is returned.
\<close>

definition GetBlockHashesFromHash ::
  "int \<Rightarrow> HeaderChain \<Rightarrow> hash \<Rightarrow> 64 word \<Rightarrow> error + (hash list \<times> HeaderChain)" where
  "GetBlockHashesFromHash mem hc h maxn =
     (case GetHeaderByHash hc h of
        (None, hc1) \<Rightarrow> Inr ([], hc1)
      | (Some header, hc1) \<Rightarrow>
          (case makeslice mem hashSize (uint maxn) of
             Some err \<Rightarrow> Inl err
           | None \<Rightarrow> Inr (GetBlockHashesFromHash_loop (unat maxn) header hc1 [])))"

subsection \<open>SetCurrentHeader and SetHead\<close>

definition SetCurrentHeader :: "HeaderChain \<Rightarrow> Header \<Rightarrow> HeaderChain" where
  "SetCurrentHeader hc head =
     hc\<lparr>chainDb := WriteHeadHeaderHash (chainDb hc) (Hash head),
        currentHeader := Some head,
        currentHeaderHash := Hash head\<rparr>"

text \<open>
  Modelled from the spec: a delete callback takes the batch, a hash and a number, does
  not commit the batch and only adds to it. It can only call \<open>Delete\<close> on what it is
  handed: it is the list of keys it deletes for a hash and a number. \<open>None\<close> is the nil
  callback.
\<close>

type_synonym DeleteCallback = "hash \<Rightarrow> 64 word \<Rightarrow> dbkey list"

text \<open>
  The state of the first loop of \<open>SetHead\<close>: the chain, the batch, and the arguments of
  the calls of the callback so far, in call order. The loop follows the parent of whatever
  header is current, so on a store in which that never ends it does not return: that is
  the value \<open>None\<close>.
\<close>

type_synonym rewind = "HeaderChain \<times> batch \<times> (hash \<times> 64 word) list"

partial_function (option) SetHead_loop ::
  "64 word \<Rightarrow> DeleteCallback option \<Rightarrow> rewind \<Rightarrow> rewind option" where
  "SetHead_loop head delFn st =
     (case st of (hc, b, calls) \<Rightarrow>
        (case CurrentHeader hc of
           None \<Rightarrow> Some st
         | Some hdr \<Rightarrow>
             if head < Number hdr then
               (let h = Hash hdr;
                    num = Number hdr;
                    b1 = (case delFn of None \<Rightarrow> b | Some f \<Rightarrow> b @ f h num);
                    calls1 = (case delFn of None \<Rightarrow> calls | Some f \<Rightarrow> calls @ [(h, num)]);
                    b2 = DeleteHeader b1 h num
                in case GetHeader hc (ParentHash hdr) (Number hdr - 1) of
                     (parent, hc1) \<Rightarrow>
                       SetHead_loop head delFn (hc1\<lparr>currentHeader := parent\<rparr>, b2, calls1))
             else Some st))"

declare SetHead_loop.simps [code]

text \<open>The second loop: \<open>for i := height; i > head; i--\<close>.\<close>

function SetHead_canonical :: "64 word \<Rightarrow> 64 word \<Rightarrow> batch \<Rightarrow> batch" where
  "SetHead_canonical head i b =
     (if head < i then SetHead_canonical head (i - 1) (DeleteCanonicalHash b i) else b)"
  by pat_completeness auto
termination
proof (relation "measure (\<lambda>(head, i, b). unat i)")
  show "wf (measure (\<lambda>(head, i, b). unat i))" by simp
next
  fix head i :: "64 word" and b :: batch
  assume "head < i"
  then have "i \<noteq> 0" by auto
  then have "unat (i - 1) < unat i" by (rule measure_unat)
  then show "((head, i - 1, DeleteCanonicalHash b i), (head, i, b))
              \<in> measure (\<lambda>(head, i, b). unat i)"
    by simp
qed

text \<open>
  \<open>SetHead\<close> returns the chain, the calls of the callback and the batches written, in
  order. When the loop leaves the current header nil and the genesis pointer is nil as
  well, \<open>hc.CurrentHeader().Hash()\<close> is called on a nil pointer; what \<open>Hash\<close> does
  there is outside the file, and the model stops with \<open>NilDeref\<close>.
\<close>

definition SetHead ::
  "64 word \<Rightarrow> DeleteCallback option \<Rightarrow> HeaderChain
   \<Rightarrow> (error + HeaderChain \<times> (hash \<times> 64 word) list \<times> batch list) option" where
  "SetHead head delFn hc =
     (let height = (case CurrentHeader hc of None \<Rightarrow> 0 | Some hdr \<Rightarrow> Number hdr)
      in case SetHead_loop head delFn (hc, [], []) of
           None \<Rightarrow> None
         | Some (hc1, b1, calls) \<Rightarrow>
             (let b2 = SetHead_canonical head height b1;
                  hc2 = hc1\<lparr>chainDb := batch_Write (chainDb hc1) b2\<rparr>;
                  hc3 = (case CurrentHeader hc2 of
                           None \<Rightarrow> hc2\<lparr>currentHeader := genesisHeader hc2\<rparr>
                         | Some hdr \<Rightarrow> hc2)
              in case CurrentHeader hc3 of
                   None \<Rightarrow> Some (Inl NilDeref)
                 | Some cur \<Rightarrow>
                     Some (Inr (hc3\<lparr>currentHeaderHash := Hash cur,
                                    chainDb := WriteHeadHeaderHash (chainDb hc3) (Hash cur)\<rparr>,
                                calls, [b2]))))"

definition SetGenesis :: "HeaderChain \<Rightarrow> Header option \<Rightarrow> HeaderChain" where
  "SetGenesis hc head = hc\<lparr>genesisHeader := head\<rparr>"

section \<open>Predicates of the properties\<close>

subsection \<open>Discovery database\<close>

text \<open>
  A key is well formed when \<open>splitKey\<close> returns on it: it lacks the item prefix or has a
  whole identity after it.
\<close>

definition wellformed_key :: "string \<Rightarrow> bool" where
  "wellformed_key k = (case splitKey k of Inl err \<Rightarrow> False | Inr p \<Rightarrow> True)"

text \<open>A node passes the age test of \<open>querySeeds\<close>: \<open>now.Sub(lastPong) > maxAge\<close> is false.\<close>

definition fresh :: "deps \<Rightarrow> int \<Rightarrow> int \<Rightarrow> nodeDB \<Rightarrow> Node \<Rightarrow> bool" where
  "fresh d now maxAge db nd = (time_Sub now (lastPong d db (ID nd)) \<le> maxAge)"

subsection \<open>Header chain\<close>

text \<open>
  \<open>linked hs\<close>: a list of headers, newest first, in which each header's parent hash is the
  hash of the next one and each number is the next one's plus one.
\<close>

fun linked :: "Header list \<Rightarrow> bool" where
  "linked [] = True"
| "linked [x] = True"
| "linked (a # b # hs) =
     (ParentHash a = Hash b \<and> unat (Number a) = Suc (unat (Number b)) \<and> linked (b # hs))"

text \<open>The header cache holds nothing else under the hash of \<open>x\<close> than \<open>x\<close>.\<close>

definition cache_ok :: "(hash \<times> Header) list \<Rightarrow> Header \<Rightarrow> bool" where
  "cache_ok c x = (map_of c (Hash x) = None \<or> map_of c (Hash x) = Some x)"

text \<open>
  \<open>canonical_segment hc hs\<close>: \<open>hs\<close> is the canonical chain from the current head down to
  some height. The headers are linked, have distinct hashes, are stored under their hash
  and number, and are the entries of the number-to-hash index at their heights.
\<close>

definition canonical_segment :: "HeaderChain \<Rightarrow> Header list \<Rightarrow> bool" where
  "canonical_segment hc hs =
     (hs \<noteq> [] \<and> CurrentHeader hc = Some (hd hs) \<and> linked hs \<and> distinct (map Hash hs)
      \<and> (\<forall>x \<in> set hs.
            map_of (chainDb hc) (headerKey (Number x) (Hash x)) = Some (HeaderVal x)
            \<and> map_of (chainDb hc) (headerHashKey (Number x)) = Some (HashVal (Hash x))
            \<and> Hash x \<noteq> 0
            \<and> cache_ok (headerCache hc) x))"

text \<open>What the callback deletes for a header, and the calls it receives for a list of headers.\<close>

definition callback_keys :: "DeleteCallback option \<Rightarrow> Header \<Rightarrow> dbkey list" where
  "callback_keys delFn x = (case delFn of None \<Rightarrow> [] | Some f \<Rightarrow> f (Hash x) (Number x))"

definition callback_calls ::
  "DeleteCallback option \<Rightarrow> Header list \<Rightarrow> (hash \<times> 64 word) list" where
  "callback_calls delFn hs =
     (case delFn of None \<Rightarrow> [] | Some f \<Rightarrow> map (\<lambda>x. (Hash x, Number x)) hs)"

definition header_deletions :: "DeleteCallback option \<Rightarrow> Header list \<Rightarrow> batch" where
  "header_deletions delFn hs =
     concat (map (\<lambda>x. callback_keys delFn x
                        @ [headerKey (Number x) (Hash x), headerNumberKey (Hash x)]) hs)"

text \<open>
  The batch a rewind over the headers \<open>hs\<close> with the callback \<open>f\<close> is to write: for each
  header the keys the callback deletes, then the header's own two keys; after all of
  them the index entries of their heights.
\<close>

definition rewind_batch :: "DeleteCallback \<Rightarrow> Header list \<Rightarrow> batch" where
  "rewind_batch f hs =
     concat (map (\<lambda>x. f (Hash x) (Number x)
                        @ [headerKey (Number x) (Hash x), headerNumberKey (Hash x)]) hs)
     @ map (\<lambda>x. headerHashKey (Number x)) hs"

text \<open>
  \<open>known hc\<close>: the headers a lookup can return, each with the hash it is found under:
  the entries of the header cache and the headers in the store. \<open>valid_on\<close>: every such
  header is found under its own hash, and where a header's parent is among them the
  header's number is the parent's plus one.
\<close>

definition known :: "HeaderChain \<Rightarrow> (hash \<times> Header) list" where
  "known hc =
     headerCache hc
     @ concat (map (\<lambda>e. case e of (headerKey n h, HeaderVal x) \<Rightarrow> [(h, x)] | _ \<Rightarrow> [])
                 (chainDb hc))"

definition valid_on :: "(hash \<times> Header) list \<Rightarrow> bool" where
  "valid_on K =
     ((\<forall>e \<in> set K. Hash (snd e) = fst e)
      \<and> (\<forall>e \<in> set K. \<forall>e' \<in> set K.
            fst e' = ParentHash (snd e) \<longrightarrow> unat (Number (snd e)) = Suc (unat (Number (snd e')))))"

definition store_valid :: "HeaderChain \<Rightarrow> bool" where
  "store_valid hc = valid_on (known hc)"

section \<open>Example states\<close>

subsection \<open>A discovery database\<close>

text \<open>
  \<open>binary.Varint\<close> as the Go library defines it: base-128 digits, least significant
  first, of the zig-zag encoding; the second component is the number of bytes read, zero
  for a buffer that ends early and negative on overflow.
\<close>

fun Uvarint_loop :: "string \<Rightarrow> nat \<Rightarrow> int \<Rightarrow> nat \<Rightarrow> int \<times> int" where
  "Uvarint_loop [] i x s = (0, 0)"
| "Uvarint_loop (c # buf) i x s =
     (let b = (of_char c :: int)
      in if i = 10 then (0, - (int i + 1))
         else if b < 128 then
           (if i = 9 \<and> 1 < b then (0, - (int i + 1))
            else ((x + b * 2 ^ s) mod 2 ^ 64, int i + 1))
         else Uvarint_loop buf (Suc i) (x + (b mod 128) * 2 ^ s) (s + 7))"

definition binary_Varint :: "string \<Rightarrow> int \<times> int" where
  "binary_Varint buf =
     (case Uvarint_loop buf 0 0 0 of
        (ux, n) \<Rightarrow> (if ux mod 2 = 0 then ux div 2 else - (ux div 2) - 1, n))"

text \<open>
  The example takes the prefixed layout for the keys of non-zero identities and, in place
  of the RLP decoder, reads a node record as the identity followed by the endpoint; it
  has a gibibyte of memory for \<open>make\<close>.
\<close>

definition example_deps :: deps where
  "example_deps =
     \<lparr>key_rest = prefixed,
      Varint = binary_Varint,
      DecodeNode = (\<lambda>blob. if length blob < NodeID_len then None
                            else Some \<lparr>ID = take NodeID_len blob,
                                       Endpoint = drop NodeID_len blob\<rparr>),
      memory = 2 ^ 30\<rparr>"

definition peer_id :: NodeID where
  "peer_id = replicate 64 (CHR ''p'')"

definition self_id :: NodeID where
  "self_id = replicate 64 (CHR ''s'')"

text \<open>The varint encoding of the Unix time 1700000000.\<close>

definition pong_blob :: string where
  "pong_blob = [CHR 0x80, CHR 0xC4, CHR 0x9F, CHR 0xD5, CHR 0x0C]"

definition peer_entries :: "(string \<times> string) list" where
  "peer_entries =
     [(prefixed peer_id nodeDBDiscoverRoot, peer_id @ ''10.0.0.7:30303''),
      (prefixed peer_id nodeDBDiscoverPong, pong_blob)]"

definition self_entries :: "(string \<times> string) list" where
  "self_entries =
     [(prefixed self_id nodeDBDiscoverRoot, self_id @ ''10.0.0.1:30303''),
      (prefixed self_id nodeDBDiscoverPong, pong_blob)]"

text \<open>
  A database holding a peer and the node itself, both with a pong one hundred seconds
  before \<open>example_now\<close>.
\<close>

definition example_db :: nodeDB where
  "example_db =
     \<lparr>lvl = \<lparr>entries = peer_entries @ self_entries, closed = False\<rparr>,
      self = self_id, runner = False, quit = False\<rparr>"

definition example_now :: int where
  "example_now = time_Unix 1700000100"

definition example_rnd :: "int \<Rightarrow> string" where
  "example_rnd seeks = replicate 64 (CHR ''a'')"

subsection \<open>A header chain\<close>

text \<open>
  Header \<open>n\<close> has the hash \<open>1000 + n\<close> and the parent hash \<open>1000 + n - 1\<close> (the genesis
  header has the zero parent hash). \<open>example_store H\<close> holds the headers \<open>0\<close> to \<open>H\<close>,
  their numbers, the canonical index, and both head pointers at header \<open>H\<close>.
\<close>

definition example_header :: "nat \<Rightarrow> Header" where
  "example_header n =
     \<lparr>ParentHash = (if n = 0 then 0 else 1000 + of_nat n - 1),
      Number = of_nat n,
      Hash = 1000 + of_nat n\<rparr>"

definition header_entries :: "nat \<Rightarrow> chaindb" where
  "header_entries n =
     [(headerKey (of_nat n) (Hash (example_header n)), HeaderVal (example_header n)),
      (headerNumberKey (Hash (example_header n)), NumberVal (of_nat n)),
      (headerHashKey (of_nat n), HashVal (Hash (example_header n)))]"

definition example_store :: "nat \<Rightarrow> chaindb" where
  "example_store H =
     concat (map header_entries [0..<Suc H])
     @ [(headBlockKey, HashVal (Hash (example_header H))),
        (headHeaderKey, HashVal (Hash (example_header H)))]"

definition example_chain :: HeaderChain where
  "example_chain = projr (NewHeaderChain (example_store 10) (Some 1))"

definition example_segment :: "Header list" where
  "example_segment = map example_header (rev [5..<11])"

definition example_callback :: DeleteCallback where
  "example_callback h n = [otherKey ''body'']"

text \<open>The chain of \<open>example_chain\<close> after \<open>SetHead(5, example_callback)\<close>.\<close>

definition example_rewound :: HeaderChain where
  "example_rewound = fst (projr (the (SetHead 5 (Some example_callback) example_chain)))"

text \<open>
  A store in which header 1 is missing: the genesis header and header 2, with both head
  pointers at header 2.
\<close>

definition broken_store :: chaindb where
  "broken_store =
     header_entries 0 @ header_entries 2
     @ [(headBlockKey, HashVal (Hash (example_header 2))),
        (headHeaderKey, HashVal (Hash (example_header 2)))]"

definition broken_chain :: HeaderChain where
  "broken_chain = projr (NewHeaderChain broken_store (Some 1))"

text \<open>
  A store whose header chain is ahead of its block chain: headers 0 and 1, the head
  block pointer at the genesis header and the head header pointer at header 1.
\<close>

definition ahead_store :: chaindb where
  "ahead_store =
     header_entries 0 @ header_entries 1
     @ [(headBlockKey, HashVal (Hash (example_header 0))),
        (headHeaderKey, HashVal (Hash (example_header 1)))]"

definition ahead_chain :: HeaderChain where
  "ahead_chain = projr (NewHeaderChain ahead_store (Some 1))"

section \<open>The key encoding\<close>

lemma makeKey_zero: "makeKey nodeDBNilNodeID field = Some field"
  by (simp add: makeKey_def)

lemma makeKey_nonzero: "nid \<noteq> nodeDBNilNodeID \<Longrightarrow> makeKey nid field = None"
  by (simp add: makeKey_def)

lemma splitKey_prefixed:
  "length nid = NodeID_len \<Longrightarrow> splitKey (prefixed nid field) = Inr (nid, field)"
  by (simp add: splitKey_def prefixed_def nodeDBItemPrefix_def)

lemma splitKey_bare:
  "take (length nodeDBItemPrefix) field \<noteq> nodeDBItemPrefix \<Longrightarrow>
   splitKey field = Inr (nodeDBNilNodeID, field)"
  by (simp add: splitKey_def)

text \<open>
  C9. The round trip \<open>splitKey (makeKey id field) = (id, field)\<close> needs \<open>makeKey\<close> to
  return the prefixed key for a non-zero identity. At the identity of 64 bytes \<open>0x01\<close>
  and the field \<open>:discover\<close> the source's \<open>makeKey\<close> returns no key at all: the
  comparison with the zero identity fails and the body ends. (\<open>splitKey\<close> does decode
  the prefixed layout, and the zero identity does get the bare field name: the three
  lemmas above.)
\<close>

theorem makeKey_nonzero_no_key:
  "makeKey (replicate 64 (CHR 0x01)) '':discover'' = None"
  by (simp add: makeKey_def nodeDBNilNodeID_def NodeID_len_def)

section \<open>The expiry sweep\<close>

lemma deleteNode_loop_closed: "closed (deleteNode_loop l deleter) = closed l"
  by (induction deleter arbitrary: l) (simp_all add: lvl_Delete_def)

lemma deleteNode_loop_entries:
  "\<not> closed l \<Longrightarrow>
   entries (deleteNode_loop l deleter) = filter (\<lambda>e. fst e \<notin> fst ` set deleter) (entries l)"
proof (induction deleter arbitrary: l)
  case Nil
  then show ?case by simp
next
  case (Cons e deleter)
  have "\<not> closed (lvl_Delete l (fst e))" using Cons.prems by (simp add: lvl_Delete_def)
  then show ?case using Cons.IH [of "lvl_Delete l (fst e)"] Cons.prems
    by (auto simp add: lvl_Delete_def intro: filter_cong)
qed

lemma deleteNode_self [simp]: "self (deleteNode d db nid) = self db"
  by (simp add: deleteNode_def)

lemma deleteNode_closed [simp]: "closed (lvl (deleteNode d db nid)) = closed (lvl db)"
  by (simp add: deleteNode_def deleteNode_loop_closed)

lemma deleteNode_entries:
  "\<not> closed (lvl db) \<Longrightarrow>
   entries (lvl (deleteNode d db nid)) =
     filter (\<lambda>e. \<not> has_prefix (key (key_rest d) nid []) (fst e)) (entries (lvl db))"
  by (auto simp add: deleteNode_def deleteNode_loop_entries lvl_NewIteratorPrefix_def
      lvl_NewIterator_def intro!: filter_cong)

lemma expireNodes_loop_runs:
  assumes "\<forall>e \<in> set it. wellformed_key (fst e)" and "\<not> closed (lvl db)"
  shows "\<exists>db' calls'. expireNodes_loop d th db calls it = Inr (db', calls')
           \<and> self db' = self db \<and> \<not> closed (lvl db')
           \<and> set (entries (lvl db')) \<subseteq> set (entries (lvl db))
           \<and> set calls \<subseteq> set calls'
           \<and> ((\<exists>e \<in> set it. splitKey (fst e) = Inr (self db, nodeDBDiscoverRoot)) \<longrightarrow>
                self db \<in> set calls'
                \<and> (\<forall>e \<in> set (entries (lvl db')).
                      \<not> has_prefix (key (key_rest d) (self db) []) (fst e)))"
  using assms
proof (induction it arbitrary: db calls)
  case Nil
  then show ?case by simp
next
  case (Cons e it)
  from Cons.prems obtain nid field where sk: "splitKey (fst e) = Inr (nid, field)"
    by (auto simp add: wellformed_key_def split: sum.splits)
  have wf: "\<forall>e \<in> set it. wellformed_key (fst e)" using Cons.prems by simp
  show ?case
  proof (cases "field \<noteq> nodeDBDiscoverRoot \<or> (nid \<noteq> self db \<and> time_After (lastPong d db nid) th)")
    case True
    then have step: "expireNodes_loop d th db calls (e # it) = expireNodes_loop d th db calls it"
      using sk by auto
    have notself: "splitKey (fst e) \<noteq> Inr (self db, nodeDBDiscoverRoot)"
      using True sk by auto
    from Cons.IH [OF wf Cons.prems(2), of calls] show ?thesis
      unfolding step using notself by auto
  next
    case False
    let ?db1 = "deleteNode d db nid"
    have step: "expireNodes_loop d th db calls (e # it) = expireNodes_loop d th ?db1 (calls @ [nid]) it"
      using sk False by auto
    have nc: "\<not> closed (lvl ?db1)" using Cons.prems(2) by simp
    from Cons.IH [OF wf nc, of "calls @ [nid]"]
    obtain db' calls' where r: "expireNodes_loop d th ?db1 (calls @ [nid]) it = Inr (db', calls')"
      and s: "self db' = self db" and c: "\<not> closed (lvl db')"
      and sub: "set (entries (lvl db')) \<subseteq> set (entries (lvl ?db1))"
      and cs: "set (calls @ [nid]) \<subseteq> set calls'"
      and later: "(\<exists>e \<in> set it. splitKey (fst e) = Inr (self db, nodeDBDiscoverRoot)) \<longrightarrow>
                self db \<in> set calls'
                \<and> (\<forall>e \<in> set (entries (lvl db')).
                      \<not> has_prefix (key (key_rest d) (self db) []) (fst e))"
      by auto
    have sub1: "set (entries (lvl ?db1)) \<subseteq> set (entries (lvl db))"
      using Cons.prems(2) by (auto simp add: deleteNode_entries)
    have here: "splitKey (fst e) = Inr (self db, nodeDBDiscoverRoot) \<Longrightarrow>
                self db \<in> set calls'
                \<and> (\<forall>e \<in> set (entries (lvl db')).
                      \<not> has_prefix (key (key_rest d) (self db) []) (fst e))"
    proof -
      assume "splitKey (fst e) = Inr (self db, nodeDBDiscoverRoot)"
      then have n: "nid = self db" using sk by simp
      have "\<forall>e \<in> set (entries (lvl ?db1)). \<not> has_prefix (key (key_rest d) (self db) []) (fst e)"
        using Cons.prems(2) n by (simp add: deleteNode_entries)
      then show ?thesis using sub cs n by auto
    qed
    show ?thesis unfolding step using r s c sub sub1 cs later here by auto
  qed
qed

text \<open>
  C1, as the code has it. The sweep tests the last pong only for identities other than
  the node's own; a node record of the node itself goes straight to \<open>deleteNode\<close>. On an
  open database whose keys are well formed, if the store holds a node-record key of the
  own identity then the sweep returns, \<open>deleteNode\<close> has been called with the own
  identity, and no key under the prefix of the own identity is left, whatever the last
  pong says.
\<close>

theorem expireNodes_deletes_self:
  assumes "\<not> closed (lvl db)"
    and "\<forall>e \<in> set (entries (lvl db)). wellformed_key (fst e)"
    and "(k, v) \<in> set (entries (lvl db))"
    and "splitKey k = Inr (self db, nodeDBDiscoverRoot)"
  shows "\<exists>db' calls. expireNodes d now db = Inr (db', calls)
           \<and> self db \<in> set calls
           \<and> (\<forall>e \<in> set (entries (lvl db')).
                 \<not> has_prefix (key (key_rest d) (self db) []) (fst e))"
proof -
  have wf: "\<forall>e \<in> set (lvl_NewIterator (lvl db)). wellformed_key (fst e)"
    using assms(1,2) by (simp add: lvl_NewIterator_def)
  have ex: "\<exists>e \<in> set (lvl_NewIterator (lvl db)). splitKey (fst e) = Inr (self db, nodeDBDiscoverRoot)"
    using assms(1,3,4) by (force simp add: lvl_NewIterator_def)
  from expireNodes_loop_runs [OF wf assms(1), of d "now - nodeDBNodeExpiration" "[]"] ex
  show ?thesis unfolding expireNodes_def by blast
qed

theorem expireNodes_deletes_self_witness:
  "\<not> closed (lvl example_db)
   \<and> list_all (\<lambda>e. wellformed_key (fst e)) (entries (lvl example_db))
   \<and> (prefixed self_id nodeDBDiscoverRoot, self_id @ ''10.0.0.1:30303'')
        \<in> set (entries (lvl example_db))
   \<and> splitKey (prefixed self_id nodeDBDiscoverRoot) = Inr (self example_db, nodeDBDiscoverRoot)
   \<and> (\<exists>db' calls. expireNodes example_deps example_now example_db = Inr (db', calls)
          \<and> self example_db \<in> set calls
          \<and> (\<forall>e \<in> set (entries (lvl db')).
                \<not> has_prefix (key (key_rest example_deps) (self example_db) []) (fst e)))"
proof -
  have h1: "\<not> closed (lvl example_db)" by code_simp
  have h2: "\<forall>e \<in> set (entries (lvl example_db)). wellformed_key (fst e)" by code_simp
  have h3: "(prefixed self_id nodeDBDiscoverRoot, self_id @ ''10.0.0.1:30303'')
              \<in> set (entries (lvl example_db))" by code_simp
  have h4: "splitKey (prefixed self_id nodeDBDiscoverRoot)
              = Inr (self example_db, nodeDBDiscoverRoot)" by code_simp
  have h2': "list_all (\<lambda>e. wellformed_key (fst e)) (entries (lvl example_db))"
    using h2 by (simp add: list_all_iff)
  from expireNodes_deletes_self [OF h1 h2 h3 h4, where d = example_deps and now = example_now]
  show ?thesis using h1 h2' h3 h4 by blast
qed

text \<open>
  The claim as it is written fails: in the example database the node's own last pong is
  after the expiry threshold, as the peer's is, and the sweep calls \<open>deleteNode\<close> with the
  own identity and with nothing else, leaving only the peer's entries.
\<close>

theorem expireNodes_self_counterexample:
  "time_After (lastPong example_deps example_db (self example_db))
     (example_now - nodeDBNodeExpiration)
   \<and> expireNodes example_deps example_now example_db
       = Inr (example_db\<lparr>lvl := \<lparr>entries = peer_entries, closed = False\<rparr>\<rparr>, [self_id])"
  by code_simp

section \<open>The expirer\<close>

lemma expirer_select_keeps_looping:
  "expirer_select d ev s = Inr s' \<Longrightarrow> expirer s' = expirer s"
  by (auto simp add: expirer_select_def split: event.splits sum.splits)

lemma expirer_never_returns:
  "run d evs s = Inr s' \<Longrightarrow> expirer s = Looping \<Longrightarrow> expirer s' = Looping"
proof (induction evs arbitrary: s)
  case Nil
  then show ?case by simp
next
  case (Cons ev evs)
  from Cons.prems(1) obtain s1 where
    s1: "(case ev of
            CloseCall \<Rightarrow>
              (case close (database s) of
                 Inl err \<Rightarrow> Inl err
               | Inr db \<Rightarrow> Inr (s\<lparr>database := db\<rparr>))
          | Tick now \<Rightarrow> Inr s) = Inr s1"
    by (auto split: sum.splits)
  then have l1: "expirer s1 = Looping"
    using Cons.prems(2) by (cases ev) (auto split: sum.splits)
  then obtain s2 where sel: "expirer_select d ev s1 = Inr s2" and r: "run d evs s2 = Inr s'"
    using Cons.prems(1) s1 by (auto split: sum.splits)
  have "expirer s2 = Looping" using expirer_select_keeps_looping [OF sel] l1 by simp
  then show ?case using Cons.IH [OF r] by simp
qed

text \<open>
  C2. The claim is that after \<open>close\<close> the expirer sees the quit signal and its loop ends,
  so that no sweep runs after \<open>close\<close>. In the source the \<open>select\<close> of the expirer has no
  case for the quit channel. For the example database with the expirer started, a call of
  \<open>close\<close> followed by one tick of the ticker: the goroutine is still in its loop and the
  tick has run the sweep (on the closed store, where it finds nothing to iterate).
\<close>

theorem expirer_sweeps_after_close:
  "run example_deps [CloseCall, Tick example_now]
     (ensureExpirer \<lparr>database = example_db, expirer = NotStarted, sweeps = 0\<rparr>)
   = Inr \<lparr>database = example_db\<lparr>runner := True, quit := True,
                                    lvl := \<lparr>entries = peer_entries @ self_entries,
                                            closed = True\<rparr>\<rparr>,
          expirer = Looping, sweeps = 1\<rparr>"
  by code_simp

section \<open>Seed sampling\<close>

declare querySeeds_loop.simps [simp del]

lemma nextNode_runs:
  "\<forall>e \<in> set it. wellformed_key (fst e) \<Longrightarrow> \<exists>r. nextNode d it = Inr r"
proof (induction it)
  case Nil
  then show ?case by simp
next
  case (Cons e it)
  then obtain nid field where "splitKey (fst e) = Inr (nid, field)"
    by (auto simp add: wellformed_key_def split: sum.splits)
  then show ?case using Cons by (auto split: option.splits)
qed

lemma nextNode_Some:
  "nextNode d it = Inr (Some nd) \<Longrightarrow> \<exists>e \<in> set it. DecodeNode d (snd e) = Some nd"
proof (induction it)
  case Nil
  then show ?case by simp
next
  case (Cons e it)
  then show ?case by (auto split: sum.splits if_splits option.splits)
qed

lemma it_Seek_subset: "set (it_Seek snapshot k) \<subseteq> set snapshot"
  by (auto simp add: it_Seek_def dest: set_dropWhileD)

lemma querySeeds_loop_inv:
  assumes "\<forall>e \<in> set snapshot. wellformed_key (fst e)"
    and "int (length nodes) \<le> n" and "distinct (map ID nodes)"
    and "\<forall>nd \<in> set nodes. ID nd \<noteq> self db \<and> fresh d now maxAge db nd
           \<and> (\<exists>e \<in> set snapshot. DecodeNode d (snd e) = Some nd)"
    and "seeks \<le> 5 * n" and "0 \<le> n"
  shows "\<exists>nodes' seeks'.
           querySeeds_loop d rnd now maxAge db snapshot n nodes nid seeks = Inr (nodes', seeks')
           \<and> int (length nodes') \<le> n \<and> distinct (map ID nodes')
           \<and> (\<forall>nd \<in> set nodes'. ID nd \<noteq> self db \<and> fresh d now maxAge db nd
                 \<and> (\<exists>e \<in> set snapshot. DecodeNode d (snd e) = Some nd))
           \<and> seeks' \<le> 5 * n"
  using assms(2-5)
proof (induction "nat (n * 5 - seeks)" arbitrary: nodes nid seeks rule: less_induct)
  case less
  let ?goal = "\<lambda>nodes nid seeks. \<exists>nodes' seeks'.
           querySeeds_loop d rnd now maxAge db snapshot n nodes nid seeks = Inr (nodes', seeks')
           \<and> int (length nodes') \<le> n \<and> distinct (map ID nodes')
           \<and> (\<forall>nd \<in> set nodes'. ID nd \<noteq> self db \<and> fresh d now maxAge db nd
                 \<and> (\<exists>e \<in> set snapshot. DecodeNode d (snd e) = Some nd))
           \<and> seeks' \<le> 5 * n"
  show ?case
  proof (cases "int (length nodes) < n \<and> seeks < n * 5")
    case False
    then show ?thesis using less.prems by (subst querySeeds_loop.simps) auto
  next
    case True
    define nid1 where "nid1 = rand_Read (rnd seeks) nid"
    define nid2 where "nid2 = set_first nid1 (byte_add (hd nid) (byte_mod16 (hd nid1)))"
    define target where "target = key (key_rest d) nid2 nodeDBDiscoverRoot"
    have "\<forall>e \<in> set (it_Seek snapshot target). wellformed_key (fst e)"
      using assms(1) it_Seek_subset by blast
    from nextNode_runs [OF this] obtain r where r: "nextNode d (it_Seek snapshot target) = Inr r"
      by blast
    have next_seeks: "seeks + 1 \<le> 5 * n"
      using True by simp
    have smaller: "nat (n * 5 - (seeks + 1)) < nat (n * 5 - seeks)"
      using True by simp
    have same: "?goal nodes nid' (seeks + 1)" for nid'
      using less.hyps [OF smaller _ _ _ next_seeks] less.prems by simp
    show ?thesis
    proof (cases r)
      case None
      have "querySeeds_loop d rnd now maxAge db snapshot n nodes nid seeks =
            querySeeds_loop d rnd now maxAge db snapshot n nodes (set_first nid2 (CHR 0x00)) (seeks + 1)"
        using True r None
        by (subst querySeeds_loop.simps) (simp add: Let_def nid1_def nid2_def target_def)
      then show ?thesis using same by simp
    next
      case (Some nd)
      show ?thesis
      proof (cases "ID nd = self db \<or> maxAge < time_Sub now (lastPong d db (ID nd))
                     \<or> ID nd \<in> set (map ID nodes)")
        case True
        have "querySeeds_loop d rnd now maxAge db snapshot n nodes nid seeks =
              querySeeds_loop d rnd now maxAge db snapshot n nodes nid2 (seeks + 1)"
          using \<open>int (length nodes) < n \<and> seeks < n * 5\<close> r Some True
          by (subst querySeeds_loop.simps) (auto simp add: Let_def nid1_def nid2_def target_def)
        then show ?thesis using same by simp
      next
        case False
        have step: "querySeeds_loop d rnd now maxAge db snapshot n nodes nid seeks =
              querySeeds_loop d rnd now maxAge db snapshot n (nodes @ [nd]) nid2 (seeks + 1)"
          using \<open>int (length nodes) < n \<and> seeks < n * 5\<close> r Some False
          by (subst querySeeds_loop.simps) (auto simp add: Let_def nid1_def nid2_def target_def)
        have a: "int (length (nodes @ [nd])) \<le> n"
          using \<open>int (length nodes) < n \<and> seeks < n * 5\<close> by simp
        have b: "distinct (map ID (nodes @ [nd]))" using less.prems(2) False by simp
        have "\<exists>e \<in> set (it_Seek snapshot target). DecodeNode d (snd e) = Some nd"
          using r Some by (intro nextNode_Some) simp
        then have st: "\<exists>e \<in> set snapshot. DecodeNode d (snd e) = Some nd"
          using it_Seek_subset by blast
        have c: "\<forall>x \<in> set (nodes @ [nd]). ID x \<noteq> self db \<and> fresh d now maxAge db x
                   \<and> (\<exists>e \<in> set snapshot. DecodeNode d (snd e) = Some x)"
          using less.prems(3) False st by (auto simp add: fresh_def)
        from less.hyps [OF smaller a b c next_seeks] show ?thesis unfolding step .
      qed
    qed
  qed
qed

lemma querySeeds_run_Inr:
  "querySeeds_run d rnd now db n maxAge = Inr (nodes, seeks) \<Longrightarrow>
   querySeeds d rnd now db n maxAge = Inr nodes"
  by (simp add: querySeeds_def)

lemma makeslice_None:
  "makeslice mem elem cap = None \<longleftrightarrow> 0 \<le> cap \<and> cap * elem \<le> maxAlloc \<and> cap * elem \<le> mem"
  by (auto simp add: makeslice_def)

lemma fresh_plain:
  "fresh d now maxAge db nd
   \<Longrightarrow> now - lastPong d db (ID nd) \<le> maxAge \<or> maxDuration \<le> maxAge"
  by (auto simp add: fresh_def time_Sub_def Let_def minDuration_def maxDuration_def
      split: if_splits)

lemma querySeeds_make_fails:
  "makeslice (memory d) ptrSize n = Some err \<Longrightarrow> querySeeds d rnd now db n maxAge = Inl err"
  by (simp add: querySeeds_def querySeeds_run_def)

text \<open>
  C8, as the code has it. The slice of the result is made with the capacity \<open>n\<close>, and a
  count that \<open>make\<close> refuses, negative or too large, ends the call in a panic. Where
  \<open>make\<close> returns the slice, on a store whose keys are well formed, \<open>querySeeds\<close> returns
  a list, of at most \<open>n\<close> nodes with pairwise distinct identities, none of them the own
  identity, each passing the age test against \<open>maxAge\<close> and each decoded from an entry of
  the store; the loop makes at most \<open>5 * n\<close> seeks. A list shorter than \<open>n\<close> is a result
  like any other. The age test is \<open>now.Sub(lastPong) > maxAge\<close> with the saturated
  difference: a node that passes it has its last pong no more than \<open>maxAge\<close> before
  \<open>now\<close>, unless \<open>maxAge\<close> is the largest duration, which every node passes.
\<close>

theorem querySeeds_result:
  assumes "makeslice (memory d) ptrSize n = None"
    and "\<forall>e \<in> set (entries (lvl db)). wellformed_key (fst e)"
  shows "\<exists>nodes seeks.
           querySeeds_run d rnd now db n maxAge = Inr (nodes, seeks)
           \<and> querySeeds d rnd now db n maxAge = Inr nodes
           \<and> int (length nodes) \<le> n
           \<and> distinct (map ID nodes)
           \<and> (\<forall>nd \<in> set nodes. ID nd \<noteq> self db \<and> fresh d now maxAge db nd
                 \<and> (now - lastPong d db (ID nd) \<le> maxAge \<or> maxDuration \<le> maxAge)
                 \<and> (\<exists>e \<in> set (entries (lvl db)). DecodeNode d (snd e) = Some nd))
           \<and> seeks \<le> 5 * n"
proof -
  have wf: "\<forall>e \<in> set (lvl_NewIterator (lvl db)). wellformed_key (fst e)"
    using assms(2) by (simp add: lvl_NewIterator_def)
  have n0: "0 \<le> n" using assms(1) by (simp add: makeslice_None)
  from querySeeds_loop_inv [OF wf, of "[]" n db d now maxAge 0 rnd nodeDBNilNodeID] n0
  obtain nodes seeks where
    "querySeeds_loop d rnd now maxAge db (lvl_NewIterator (lvl db)) n [] nodeDBNilNodeID 0
       = Inr (nodes, seeks)"
    "int (length nodes) \<le> n" "distinct (map ID nodes)"
    "\<forall>nd \<in> set nodes. ID nd \<noteq> self db \<and> fresh d now maxAge db nd
       \<and> (\<exists>e \<in> set (lvl_NewIterator (lvl db)). DecodeNode d (snd e) = Some nd)"
    "seeks \<le> 5 * n"
    by auto
  moreover have "set (lvl_NewIterator (lvl db)) \<subseteq> set (entries (lvl db))"
    by (simp add: lvl_NewIterator_def)
  ultimately have r: "querySeeds_run d rnd now db n maxAge = Inr (nodes, seeks)"
    "querySeeds d rnd now db n maxAge = Inr nodes"
    "int (length nodes) \<le> n" "distinct (map ID nodes)" "seeks \<le> 5 * n"
    and each: "\<forall>nd \<in> set nodes. ID nd \<noteq> self db \<and> fresh d now maxAge db nd
                 \<and> (\<exists>e \<in> set (entries (lvl db)). DecodeNode d (snd e) = Some nd)"
    using assms(1) by (auto simp add: querySeeds_run_def querySeeds_def)
  have "\<forall>nd \<in> set nodes. ID nd \<noteq> self db \<and> fresh d now maxAge db nd
          \<and> (now - lastPong d db (ID nd) \<le> maxAge \<or> maxDuration \<le> maxAge)
          \<and> (\<exists>e \<in> set (entries (lvl db)). DecodeNode d (snd e) = Some nd)"
    using each fresh_plain [of d now maxAge db] by blast
  then show ?thesis using r by blast
qed

theorem querySeeds_result_witness:
  "makeslice (memory example_deps) ptrSize 3 = None
   \<and> list_all (\<lambda>e. wellformed_key (fst e)) (entries (lvl example_db))
   \<and> (\<exists>nodes seeks.
         querySeeds_run example_deps example_rnd example_now example_db 3 hour = Inr (nodes, seeks)
         \<and> querySeeds example_deps example_rnd example_now example_db 3 hour = Inr nodes
         \<and> int (length nodes) \<le> 3
         \<and> distinct (map ID nodes)
         \<and> (\<forall>nd \<in> set nodes. ID nd \<noteq> self example_db
               \<and> fresh example_deps example_now hour example_db nd
               \<and> (example_now - lastPong example_deps example_db (ID nd) \<le> hour
                    \<or> maxDuration \<le> hour)
               \<and> (\<exists>e \<in> set (entries (lvl example_db)).
                     DecodeNode example_deps (snd e) = Some nd))
         \<and> seeks \<le> 5 * 3)"
proof -
  have h1: "makeslice (memory example_deps) ptrSize 3 = None" by code_simp
  have h2: "\<forall>e \<in> set (entries (lvl example_db)). wellformed_key (fst e)" by code_simp
  from querySeeds_result [OF h1 h2, where rnd = example_rnd
      and now = example_now and maxAge = hour]
  show ?thesis using h1 h2 by (simp add: list_all_iff)
qed

text \<open>
  The count \<open>2 ^ 61\<close> on the example database: the call panics in \<open>make\<close>, and nothing
  is returned.
\<close>

theorem querySeeds_result_counterexample:
  "querySeeds example_deps example_rnd example_now example_db 2305843009213693952 hour
     = Inl MakeSlice"
  by (simp add: querySeeds_def querySeeds_run_def makeslice_def maxAlloc_def ptrSize_def)

section \<open>The header chain\<close>

subsection \<open>The example chains are what NewHeaderChain builds\<close>

lemma example_chain_built: "NewHeaderChain (example_store 10) (Some 1) = Inr example_chain"
  by code_simp

lemma broken_chain_built: "NewHeaderChain broken_store (Some 1) = Inr broken_chain"
  by code_simp

lemma ahead_chain_built: "NewHeaderChain ahead_store (Some 1) = Inr ahead_chain"
  by code_simp

subsection \<open>Store and cache facts\<close>

lemma map_of_db_Delete: "map_of (db_Delete db k) k' = (if k' = k then None else map_of db k')"
  by (induction db) (auto simp add: db_Delete_def)

lemma map_of_batch_Write:
  "map_of (batch_Write db b) k = (if k \<in> set b then None else map_of db k)"
  by (induction b arbitrary: db) (auto simp add: map_of_db_Delete)

lemma map_of_db_Put: "map_of (db_Put db k v) k' = (if k' = k then Some v else map_of db k')"
  by (induction db) (auto simp add: db_Put_def)

lemma map_of_filter_other: "k' \<noteq> k \<Longrightarrow> map_of (filter (\<lambda>e. fst e \<noteq> k) c) k' = map_of c k'"
  by (induction c) auto

lemma map_of_take_Some: "map_of (take n c) k = Some v \<Longrightarrow> map_of c k = Some v"
proof (induction c arbitrary: n)
  case Nil
  then show ?case by simp
next
  case (Cons e c)
  then show ?case by (cases n) (auto split: if_splits)
qed

lemma GetHeader_frame:
  "GetHeader hc k n = (r, hc') \<Longrightarrow>
   chainDb hc' = chainDb hc \<and> genesisHeader hc' = genesisHeader hc
   \<and> currentHeader hc' = currentHeader hc \<and> currentHeaderHash hc' = currentHeaderHash hc
   \<and> numberCache hc' = numberCache hc"
  by (auto simp add: GetHeader_def lru_Get_def split: option.splits)

lemma GetHeader_stored:
  assumes "map_of (chainDb hc) (headerKey (Number x) (Hash x)) = Some (HeaderVal x)"
    and "cache_ok (headerCache hc) x"
  shows "\<exists>hc'. GetHeader hc (Hash x) (Number x) = (Some x, hc')
           \<and> map_of (headerCache hc') (Hash x) = Some x"
  using assms
  by (auto simp add: GetHeader_def lru_Get_def lru_Add_def ReadHeader_def cache_ok_def
      headerCacheLimit_def split: option.splits)

lemma map_of_take_cases: "map_of (take n c) k = None \<or> map_of (take n c) k = map_of c k"
  using map_of_take_Some [of n c k] by (cases "map_of (take n c) k") auto

lemma map_of_lru_Add:
  "map_of (lru_Add limit c k v) k' = None
   \<or> map_of (lru_Add limit c k v) k' = (if k' = k then Some v else map_of c k')"
  using map_of_take_cases [of limit "(k, v) # filter (\<lambda>e. fst e \<noteq> k) c" k']
  by (auto simp add: lru_Add_def map_of_filter_other simp del: take_Suc_Cons)

lemma map_of_lru_Get:
  "lru_Get c k = (r, c') \<Longrightarrow> map_of c' k' = map_of c k'"
  by (cases "k' = k") (auto simp add: lru_Get_def map_of_filter_other split: option.splits)

lemma GetHeader_cache:
  assumes "GetHeader hc k n = (Some x, hc')"
  shows "map_of (headerCache hc') k' = None
         \<or> map_of (headerCache hc') k' = (if k' = k then Some x else map_of (headerCache hc) k')"
proof (cases "map_of (headerCache hc) k")
  case None
  then have "headerCache hc' = lru_Add headerCacheLimit (headerCache hc) k x"
    using assms by (auto simp add: GetHeader_def lru_Get_def split: option.splits)
  then show ?thesis using map_of_lru_Add [of headerCacheLimit "headerCache hc" k x k'] by simp
next
  case (Some v)
  then have "x = v" and "lru_Get (headerCache hc) k = (Some v, headerCache hc')"
    using assms by (auto simp add: GetHeader_def lru_Get_def split: option.splits)
  then show ?thesis using map_of_lru_Get [of "headerCache hc" k "Some v" "headerCache hc'" k'] Some
    by auto
qed

lemma GetHeader_cache_ok:
  assumes "GetHeader hc (Hash x) n = (Some x, hc')" and "cache_ok (headerCache hc) y"
    and "Hash y = Hash x \<longrightarrow> y = x"
  shows "cache_ok (headerCache hc') y"
  using GetHeader_cache [OF assms(1), of "Hash y"] assms(2,3)
  by (auto simp add: cache_ok_def split: if_splits)

lemma word_pred_eq: "unat (a :: 64 word) = Suc (unat b) \<Longrightarrow> a - 1 = b"
proof -
  assume h: "unat a = Suc (unat b)"
  then have "a \<noteq> 0" by (auto simp add: unat_eq_zero)
  then have "unat (a - 1) = unat a - 1" by (simp add: unat_minus_one)
  then have "unat (a - 1) = unat b" using h by simp
  then show ?thesis by (simp add: word_unat_eq_iff)
qed

lemma canonical_step_iff:
  "(head :: 64 word) < i \<Longrightarrow> (k = i \<or> (head < k \<and> k \<le> i - 1)) = (head < k \<and> k \<le> i)"
  by unat_arith

declare SetHead_canonical.simps [simp del]

lemma SetHead_canonical_set:
  "set (SetHead_canonical head i b) = set b \<union> headerHashKey ` {k. head < k \<and> k \<le> i}"
proof (induction head i b rule: SetHead_canonical.induct)
  case (1 head i b)
  show ?case
  proof (cases "head < i")
    case True
    have "{k. head < k \<and> k \<le> i} = insert i {k. head < k \<and> k \<le> i - 1}"
      using canonical_step_iff [OF True] by auto
    then show ?thesis
      using "1.IH" [OF True] True
      by (subst SetHead_canonical.simps) (auto simp add: DeleteCanonicalHash_def)
  next
    case False
    then have e: "{k. head < k \<and> k \<le> i} = {}" by (auto dest: less_le_trans)
    show ?thesis unfolding e using False by (subst SetHead_canonical.simps) simp
  qed
qed

lemma linked_last_less:
  "linked (x # y # hs) \<Longrightarrow> unat (Number (last (y # hs))) < unat (Number x)"
proof (induction hs arbitrary: x y)
  case Nil
  then show ?case by simp
next
  case (Cons z hs)
  from Cons.prems have "linked (y # z # hs)" and "unat (Number x) = Suc (unat (Number y))"
    by simp_all
  with Cons.IH [of y z] show ?case by simp
qed

lemma linked_butlast_above:
  "linked hs \<Longrightarrow> \<forall>x \<in> set (butlast hs). Number (last hs) < Number x"
proof (induction hs rule: linked.induct)
  case 1
  then show ?case by simp
next
  case (2 x)
  then show ?case by simp
next
  case (3 a b hs)
  have "unat (Number (last (b # hs))) < unat (Number a)"
    using "3.prems" by (rule linked_last_less)
  then have "Number (last (a # b # hs)) < Number a" by (simp add: word_less_nat_alt)
  then show ?case using 3 by auto
qed

lemma SetHead_canonical_linked:
  "linked hs \<Longrightarrow> hs \<noteq> [] \<Longrightarrow>
   SetHead_canonical (Number (last hs)) (Number (hd hs)) b
     = b @ map (\<lambda>x. headerHashKey (Number x)) (butlast hs)"
proof (induction hs arbitrary: b rule: linked.induct)
  case 1
  then show ?case by simp
next
  case (2 x)
  show ?case by (subst SetHead_canonical.simps) simp
next
  case (3 x y hs)
  have less: "Number (last (x # y # hs)) < Number x"
    using linked_last_less [OF "3.prems"(1)] by (simp add: word_less_nat_alt)
  have pred: "Number x - 1 = Number y" using "3.prems"(1) by (simp add: word_pred_eq)
  have "SetHead_canonical (Number (last (y # hs))) (Number y) (b @ [headerHashKey (Number x)])
          = (b @ [headerHashKey (Number x)]) @ map (\<lambda>x. headerHashKey (Number x)) (butlast (y # hs))"
    using "3.IH" [of "b @ [headerHashKey (Number x)]"] "3.prems" by simp
  then show ?case using less pred
    by (subst SetHead_canonical.simps) (simp add: DeleteCanonicalHash_def)
qed

lemma SetHead_loop_post:
  assumes "SetHead_loop head delFn st = Some st'"
  shows "chainDb (fst st') = chainDb (fst st) \<and> genesisHeader (fst st') = genesisHeader (fst st)
         \<and> (\<forall>hdr. CurrentHeader (fst st') = Some hdr \<longrightarrow> Number hdr \<le> head)"
proof (rule SetHead_loop.raw_induct
    [where P = "\<lambda>head delFn st st'.
        chainDb (fst st') = chainDb (fst st) \<and> genesisHeader (fst st') = genesisHeader (fst st)
        \<and> (\<forall>hdr. CurrentHeader (fst st') = Some hdr \<longrightarrow> Number hdr \<le> head)", OF _ assms],
    goal_cases)
  case (1 loop head delFn st st')
  obtain hc b calls where st: "st = (hc, b, calls)" by (cases st) auto
  show ?case
  proof (cases "CurrentHeader hc")
    case None
    then show ?thesis using 1(2) st by auto
  next
    case (Some hdr)
    show ?thesis
    proof (cases "head < Number hdr")
      case False
      then show ?thesis using 1(2) st Some by auto
    next
      case True
      obtain parent hc1 where g: "GetHeader hc (ParentHash hdr) (Number hdr - 1) = (parent, hc1)"
        by (cases "GetHeader hc (ParentHash hdr) (Number hdr - 1)") auto
      from 1(2) st Some True g obtain b2 calls1 where
        "loop head delFn (hc1\<lparr>currentHeader := parent\<rparr>, b2, calls1) = Some st'"
        by (auto simp add: Let_def)
      from 1(1) [OF this] GetHeader_frame [OF g] show ?thesis using st by simp
    qed
  qed
qed

lemma SetHead_loop_segment:
  assumes "canonical_segment hc hs" and "Number (last hs) \<le> head"
    and "\<forall>x \<in> set (butlast hs). head < Number x"
  shows "\<exists>hc'. SetHead_loop head delFn (hc, b, calls)
                 = Some (hc', b @ header_deletions delFn (butlast hs),
                         calls @ callback_calls delFn (butlast hs))
           \<and> chainDb hc' = chainDb hc \<and> genesisHeader hc' = genesisHeader hc
           \<and> CurrentHeader hc' = Some (last hs)
           \<and> (2 \<le> length hs \<longrightarrow> map_of (headerCache hc') (Hash (last hs)) = Some (last hs))"
  using assms
proof (induction hs arbitrary: hc b calls)
  case Nil
  then show ?case by (simp add: canonical_segment_def)
next
  case (Cons x hs)
  have cur: "CurrentHeader hc = Some x" using Cons.prems(1) by (simp add: canonical_segment_def)
  show ?case
  proof (cases hs)
    case Nil
    then have "\<not> head < Number x" using Cons.prems(2) by auto
    then show ?thesis using cur Nil
      by (subst SetHead_loop.simps)
         (simp add: header_deletions_def callback_calls_def split: option.splits)
  next
    case (Cons y rest)
    have above: "head < Number x" using Cons.prems(3) Cons by simp
    have lk: "ParentHash x = Hash y" "unat (Number x) = Suc (unat (Number y))" "linked (y # rest)"
      using Cons.prems(1) Cons by (simp_all add: canonical_segment_def)
    have pred: "Number x - 1 = Number y" using lk(2) by (rule word_pred_eq)
    have y_stored: "map_of (chainDb hc) (headerKey (Number y) (Hash y)) = Some (HeaderVal y)"
      and y_cache: "cache_ok (headerCache hc) y"
      using Cons.prems(1) Cons by (simp_all add: canonical_segment_def)
    from GetHeader_stored [OF y_stored y_cache] obtain hc1 where
      g: "GetHeader hc (Hash y) (Number y) = (Some y, hc1)"
      and cached: "map_of (headerCache hc1) (Hash y) = Some y" by blast
    let ?hc1 = "hc1\<lparr>currentHeader := Some y\<rparr>"
    let ?b2 = "DeleteHeader (case delFn of None \<Rightarrow> b | Some f \<Rightarrow> b @ f (Hash x) (Number x))
                 (Hash x) (Number x)"
    let ?calls1 = "case delFn of None \<Rightarrow> calls | Some f \<Rightarrow> calls @ [(Hash x, Number x)]"
    have step: "SetHead_loop head delFn (hc, b, calls) = SetHead_loop head delFn (?hc1, ?b2, ?calls1)"
      using cur above g lk(1) pred by (subst SetHead_loop.simps) (simp add: Let_def)
    have frame: "chainDb hc1 = chainDb hc" "genesisHeader hc1 = genesisHeader hc"
      using GetHeader_frame [OF g] by simp_all
    have seg: "canonical_segment ?hc1 hs"
      unfolding canonical_segment_def
    proof (intro conjI ballI)
      show "hs \<noteq> []" using Cons by simp
      show "CurrentHeader ?hc1 = Some (hd hs)" using Cons by (simp add: CurrentHeader_def)
      show "linked hs" using lk(3) Cons by simp
      show "distinct (map Hash hs)" using Cons.prems(1) by (simp add: canonical_segment_def)
    next
      fix z assume z: "z \<in> set hs"
      then show "map_of (chainDb ?hc1) (headerKey (Number z) (Hash z)) = Some (HeaderVal z)"
        and "map_of (chainDb ?hc1) (headerHashKey (Number z)) = Some (HashVal (Hash z))"
        and "Hash z \<noteq> 0"
        using Cons.prems(1) frame by (simp_all add: canonical_segment_def)
      have "distinct (map Hash hs)" using Cons.prems(1) by (simp add: canonical_segment_def)
      then have inj: "Hash z = Hash y \<longrightarrow> z = y" using z Cons
        by (cases "z = y") (auto simp add: image_iff)
      have "cache_ok (headerCache hc) z" using Cons.prems(1) z by (simp add: canonical_segment_def)
      from GetHeader_cache_ok [OF g this inj] show "cache_ok (headerCache ?hc1) z" by simp
    qed
    have last_le: "Number (last hs) \<le> head" using Cons.prems(2) Cons by simp
    have rest_above: "\<forall>x \<in> set (butlast hs). head < Number x" using Cons.prems(3) Cons by simp
    from Cons.IH [OF seg last_le rest_above, of ?b2 ?calls1] obtain hc' where
      r: "SetHead_loop head delFn (?hc1, ?b2, ?calls1)
            = Some (hc', ?b2 @ header_deletions delFn (butlast hs),
                    ?calls1 @ callback_calls delFn (butlast hs))"
      and fr: "chainDb hc' = chainDb ?hc1" "genesisHeader hc' = genesisHeader ?hc1"
      and c: "CurrentHeader hc' = Some (last hs)"
      and ca: "2 \<le> length hs \<longrightarrow> map_of (headerCache hc') (Hash (last hs)) = Some (last hs)"
      by blast
    have b_eq: "?b2 @ header_deletions delFn (butlast hs)
                  = b @ header_deletions delFn (butlast (x # hs))"
      using Cons by (simp add: header_deletions_def callback_keys_def DeleteHeader_def
          split: option.splits)
    have c_eq: "?calls1 @ callback_calls delFn (butlast hs)
                  = calls @ callback_calls delFn (butlast (x # hs))"
      using Cons by (simp add: callback_calls_def split: option.splits)
    have ca': "map_of (headerCache hc') (Hash (last (x # hs))) = Some (last (x # hs))"
    proof (cases rest)
      case Nil
      then have "hs = [y]" using Cons by simp
      moreover have "\<not> head < Number y" using last_le \<open>hs = [y]\<close> by auto
      ultimately have "SetHead_loop head delFn (?hc1, ?b2, ?calls1) = Some (?hc1, ?b2, ?calls1)"
        by (subst SetHead_loop.simps) (simp add: CurrentHeader_def)
      then have "hc' = ?hc1" using r by simp
      then show ?thesis using cached \<open>hs = [y]\<close> by simp
    next
      case (Cons z rest')
      then show ?thesis using ca \<open>hs = y # rest\<close> by simp
    qed
    show ?thesis
      unfolding step using r fr c ca' frame b_eq c_eq Cons by simp
  qed
qed

lemma GetHeaderByNumber_deleted:
  "map_of (chainDb hc) (headerHashKey k) = None \<Longrightarrow> GetHeaderByNumber hc k = (None, hc)"
  by (simp add: GetHeaderByNumber_def ReadCanonicalHash_def)

lemma SetHead_result:
  assumes "SetHead head delFn hc = Some (Inr (hc', calls, commits))"
  shows "\<exists>hc1 b1 cur.
           SetHead_loop head delFn (hc, [], []) = Some (hc1, b1, calls)
           \<and> commits = [SetHead_canonical head
                          (case CurrentHeader hc of None \<Rightarrow> 0 | Some hdr \<Rightarrow> Number hdr) b1]
           \<and> (case CurrentHeader hc1 of None \<Rightarrow> genesisHeader hc1 | Some hdr \<Rightarrow> Some hdr) = Some cur
           \<and> hc' = hc1\<lparr>chainDb := WriteHeadHeaderHash (batch_Write (chainDb hc1) (hd commits)) (Hash cur),
                      currentHeader := Some cur, currentHeaderHash := Hash cur\<rparr>"
  using assms
  by (auto simp add: SetHead_def Let_def CurrentHeader_def split: option.splits prod.splits)

lemma SetHead_removes_index:
  assumes "SetHead head delFn hc = Some (Inr (hc', calls, commits))"
    and "CurrentHeader hc = Some hdr" and "head < k" and "k \<le> Number hdr"
  shows "GetHeaderByNumber hc' k = (None, hc')"
proof -
  from SetHead_result [OF assms(1)] obtain hc1 b1 cur where
    c: "commits = [SetHead_canonical head (Number hdr) b1]"
    and h: "hc' = hc1\<lparr>chainDb := WriteHeadHeaderHash (batch_Write (chainDb hc1) (hd commits)) (Hash cur),
                      currentHeader := Some cur, currentHeaderHash := Hash cur\<rparr>"
    using assms(2) by auto
  have "headerHashKey k \<in> set (hd commits)"
    using c assms(3,4) by (simp add: SetHead_canonical_set)
  then have "map_of (chainDb hc') (headerHashKey k) = None"
    using h by (simp add: WriteHeadHeaderHash_def map_of_db_Put map_of_batch_Write)
  then show ?thesis by (rule GetHeaderByNumber_deleted)
qed

lemma linked_heights:
  "linked hs \<Longrightarrow> hs \<noteq> [] \<Longrightarrow>
   map (\<lambda>x. unat (Number x)) hs = rev [unat (Number (last hs)) ..< Suc (unat (Number (hd hs)))]"
proof (induction hs rule: linked.induct)
  case 1
  then show ?case by simp
next
  case (2 x)
  then show ?case by simp
next
  case (3 a b hs)
  have le: "unat (Number (last (b # hs))) \<le> unat (Number b)"
    using "3.prems"(1) linked_last_less [of a b hs] by simp
  have "map (\<lambda>x. unat (Number x)) (b # hs)
          = rev [unat (Number (last (b # hs))) ..< Suc (unat (Number b))]"
    using 3 by simp
  moreover have "unat (Number a) = Suc (unat (Number b))" using "3.prems"(1) by simp
  ultimately show ?case using le by simp
qed

lemma linked_removed_heights:
  assumes "linked hs" and "hs \<noteq> []"
  shows "map (\<lambda>x. unat (Number x)) (butlast hs)
           = rev [Suc (unat (Number (last hs))) ..< Suc (unat (Number (hd hs)))]"
proof -
  have le: "unat (Number (last hs)) \<le> unat (Number (hd hs))"
  proof (cases hs)
    case Nil
    then show ?thesis using assms by simp
  next
    case (Cons a rest)
    then show ?thesis using assms linked_last_less [of a "hd rest" "tl rest"]
      by (cases rest) auto
  qed
  have "map (\<lambda>x. unat (Number x)) (butlast hs) = butlast (map (\<lambda>x. unat (Number x)) hs)"
    by (simp add: map_butlast)
  also have "\<dots> = butlast (rev [unat (Number (last hs)) ..< Suc (unat (Number (hd hs)))])"
    using linked_heights [OF assms] by simp
  also have "\<dots> = rev (tl [unat (Number (last hs)) ..< Suc (unat (Number (hd hs)))])"
    by (simp add: butlast_rev)
  also have "tl [unat (Number (last hs)) ..< Suc (unat (Number (hd hs)))]
               = [Suc (unat (Number (last hs))) ..< Suc (unat (Number (hd hs)))]"
    using le by (simp add: upt_conv_Cons del: upt_Suc)
  finally show ?thesis .
qed

lemma SetHead_on_segment:
  assumes seg: "canonical_segment hc hs" and len: "2 \<le> length hs"
  shows "\<exists>hc1. SetHead_loop (Number (last hs)) delFn (hc, [], [])
                  = Some (hc1, header_deletions delFn (butlast hs), callback_calls delFn (butlast hs))
           \<and> chainDb hc1 = chainDb hc
           \<and> map_of (headerCache hc1) (Hash (last hs)) = Some (last hs)
           \<and> SetHead (Number (last hs)) delFn hc
               = Some (Inr (hc1\<lparr>currentHeaderHash := Hash (last hs),
                              chainDb := WriteHeadHeaderHash
                                (batch_Write (chainDb hc)
                                   (header_deletions delFn (butlast hs)
                                    @ map (\<lambda>x. headerHashKey (Number x)) (butlast hs)))
                                (Hash (last hs))\<rparr>,
                            callback_calls delFn (butlast hs),
                            [header_deletions delFn (butlast hs)
                             @ map (\<lambda>x. headerHashKey (Number x)) (butlast hs)]))"
proof -
  have lk: "linked hs" and ne: "hs \<noteq> []" and cur: "CurrentHeader hc = Some (hd hs)"
    using seg by (simp_all add: canonical_segment_def)
  from SetHead_loop_segment [OF seg order_refl linked_butlast_above [OF lk], of delFn "[]" "[]"]
  obtain hc1 where
    r: "SetHead_loop (Number (last hs)) delFn (hc, [], [])
          = Some (hc1, header_deletions delFn (butlast hs), callback_calls delFn (butlast hs))"
    and db: "chainDb hc1 = chainDb hc"
    and c: "CurrentHeader hc1 = Some (last hs)"
    and ca: "map_of (headerCache hc1) (Hash (last hs)) = Some (last hs)"
    using len by auto
  have canon: "SetHead_canonical (Number (last hs)) (Number (hd hs)) (header_deletions delFn (butlast hs))
                 = header_deletions delFn (butlast hs) @ map (\<lambda>x. headerHashKey (Number x)) (butlast hs)"
    by (rule SetHead_canonical_linked [OF lk ne])
  have "SetHead (Number (last hs)) delFn hc
               = Some (Inr (hc1\<lparr>currentHeaderHash := Hash (last hs),
                              chainDb := WriteHeadHeaderHash
                                (batch_Write (chainDb hc)
                                   (header_deletions delFn (butlast hs)
                                    @ map (\<lambda>x. headerHashKey (Number x)) (butlast hs)))
                                (Hash (last hs))\<rparr>,
                            callback_calls delFn (butlast hs),
                            [header_deletions delFn (butlast hs)
                             @ map (\<lambda>x. headerHashKey (Number x)) (butlast hs)]))"
    using r cur c canon db by (simp add: SetHead_def CurrentHeader_def Let_def)
  then show ?thesis using r db ca by blast
qed

text \<open>
  C3. Let \<open>hs\<close> be the canonical chain from the current head (height \<open>H\<close>, the first
  element) down to height \<open>h < H\<close> (the last element), and let the callback leave the
  index entry of height \<open>h\<close> alone. Then \<open>SetHead h\<close> returns, and afterwards
  \<open>GetHeaderByNumber k\<close> is absent for every \<open>h < k \<le> H\<close>, \<open>GetHeaderByNumber h\<close> is
  the header it was before, and that header is the current header.
\<close>

theorem SetHead_rewinds_canonical_chain:
  assumes seg: "canonical_segment hc hs" and len: "2 \<le> length hs"
    and cb: "\<forall>x \<in> set (butlast hs). headerHashKey (Number (last hs)) \<notin> set (callback_keys delFn x)"
  shows "\<exists>hc' calls commits.
           SetHead (Number (last hs)) delFn hc = Some (Inr (hc', calls, commits))
           \<and> (\<forall>k. Number (last hs) < k \<and> k \<le> Number (hd hs)
                   \<longrightarrow> fst (GetHeaderByNumber hc' k) = None)
           \<and> fst (GetHeaderByNumber hc (Number (last hs))) = Some (last hs)
           \<and> fst (GetHeaderByNumber hc' (Number (last hs))) = Some (last hs)
           \<and> CurrentHeader hc' = Some (last hs)"
proof -
  let ?h = "Number (last hs)"
  let ?b = "header_deletions delFn (butlast hs) @ map (\<lambda>x. headerHashKey (Number x)) (butlast hs)"
  have lk: "linked hs" and ne: "hs \<noteq> []" and cur: "CurrentHeader hc = Some (hd hs)"
    using seg by (simp_all add: canonical_segment_def)
  have last_in: "last hs \<in> set hs" using ne by simp
  have idx: "map_of (chainDb hc) (headerHashKey ?h) = Some (HashVal (Hash (last hs)))"
    and stored: "map_of (chainDb hc) (headerKey ?h (Hash (last hs))) = Some (HeaderVal (last hs))"
    and nz: "Hash (last hs) \<noteq> 0" and cok: "cache_ok (headerCache hc) (last hs)"
    using seg last_in by (simp_all add: canonical_segment_def)
  from SetHead_on_segment [OF seg len, of delFn] obtain hc1 where
    ca: "map_of (headerCache hc1) (Hash (last hs)) = Some (last hs)"
    and c: "SetHead_loop ?h delFn (hc, [], [])
              = Some (hc1, header_deletions delFn (butlast hs), callback_calls delFn (butlast hs))"
    and r: "SetHead ?h delFn hc
              = Some (Inr (hc1\<lparr>currentHeaderHash := Hash (last hs),
                             chainDb := WriteHeadHeaderHash (batch_Write (chainDb hc) ?b)
                                          (Hash (last hs))\<rparr>,
                           callback_calls delFn (butlast hs), [?b]))"
    by blast
  let ?hc' = "hc1\<lparr>currentHeaderHash := Hash (last hs),
                 chainDb := WriteHeadHeaderHash (batch_Write (chainDb hc) ?b) (Hash (last hs))\<rparr>"
  have gone: "\<forall>k. ?h < k \<and> k \<le> Number (hd hs) \<longrightarrow> fst (GetHeaderByNumber ?hc' k) = None"
    using SetHead_removes_index [OF r cur] by simp
  have before: "fst (GetHeaderByNumber hc ?h) = Some (last hs)"
    using GetHeader_stored [OF stored cok] idx nz
    by (auto simp add: GetHeaderByNumber_def ReadCanonicalHash_def)
  have above: "\<forall>x \<in> set (butlast hs). ?h < Number x" by (rule linked_butlast_above [OF lk])
  have "headerHashKey ?h \<notin> set ?b"
    using cb above by (auto simp add: header_deletions_def)
  then have "map_of (chainDb ?hc') (headerHashKey ?h) = Some (HashVal (Hash (last hs)))"
    using idx by (simp add: WriteHeadHeaderHash_def map_of_db_Put map_of_batch_Write)
  then have after: "fst (GetHeaderByNumber ?hc' ?h) = Some (last hs)"
    using ca nz
    by (simp add: GetHeaderByNumber_def ReadCanonicalHash_def GetHeader_def lru_Get_def Let_def)
  have "CurrentHeader hc1 = Some (last hs)"
    using SetHead_loop_segment [OF seg order_refl above, of delFn "[]" "[]"] c by auto
  then have "CurrentHeader ?hc' = Some (last hs)" by (simp add: CurrentHeader_def)
  then show ?thesis using r gone before after by blast
qed

theorem SetHead_rewinds_canonical_chain_witness:
  "canonical_segment example_chain example_segment
   \<and> 2 \<le> length example_segment
   \<and> list_all (\<lambda>x. headerHashKey (Number (last example_segment))
                        \<notin> set (callback_keys (Some example_callback) x))
         (butlast example_segment)
   \<and> (\<exists>hc' calls commits.
         SetHead 5 (Some example_callback) example_chain = Some (Inr (hc', calls, commits))
         \<and> fst (GetHeaderByNumber hc' 7) = None
         \<and> fst (GetHeaderByNumber hc' 5) = Some (example_header 5)
         \<and> CurrentHeader hc' = Some (example_header 5))"
proof -
  have h1: "canonical_segment example_chain example_segment" by code_simp
  have h2: "2 \<le> length example_segment" by code_simp
  have h3: "\<forall>x \<in> set (butlast example_segment).
              headerHashKey (Number (last example_segment))
                \<notin> set (callback_keys (Some example_callback) x)" by code_simp
  have l: "last example_segment = example_header 5" by code_simp
  have n: "Number (example_header 5) = 5" "Number (hd example_segment) = 10" by code_simp+
  from SetHead_rewinds_canonical_chain [OF h1 h2 h3] obtain hc' calls commits where
    r: "SetHead 5 (Some example_callback) example_chain = Some (Inr (hc', calls, commits))"
    and gone: "\<forall>k. 5 < k \<and> k \<le> 10 \<longrightarrow> fst (GetHeaderByNumber hc' k) = None"
    and at_h: "fst (GetHeaderByNumber hc' 5) = Some (example_header 5)"
    and cur: "CurrentHeader hc' = Some (example_header 5)"
    unfolding l n by blast
  have h3': "list_all (\<lambda>x. headerHashKey (Number (last example_segment))
                              \<notin> set (callback_keys (Some example_callback) x))
               (butlast example_segment)"
    using h3 by (simp add: list_all_iff)
  have "fst (GetHeaderByNumber hc' 7) = None" using gone by simp
  then show ?thesis using h1 h2 h3' r at_h cur by blast
qed

text \<open>
  C4. On the same chain, with a callback \<open>f\<close>. The first loop ends with the store
  untouched, every header above height \<open>h\<close> still in it, and the callback called once for
  each of those headers, from the head downwards, with that header's hash and number;
  the headers have the heights \<open>H, H - 1, \<dots>, h + 1\<close>. \<open>SetHead\<close> then writes one
  batch, once: for each header the keys the callback deleted followed by the header's own
  two keys, and then the index entries. The store \<open>SetHead\<close> leaves is the old one with
  that batch applied and the head-header hash rewritten: each of those headers, its
  number, its index entry and what the callback deleted for it are gone, every key
  outside the batch is as it was, and the header of height \<open>h\<close> is the current one.
\<close>

theorem SetHead_callback_once_per_height:
  assumes seg: "canonical_segment hc hs" and len: "2 \<le> length hs"
  shows "\<exists>hc1 hc'.
           SetHead_loop (Number (last hs)) (Some f) (hc, [], [])
             = Some (hc1, header_deletions (Some f) (butlast hs),
                     map (\<lambda>x. (Hash x, Number x)) (butlast hs))
           \<and> chainDb hc1 = chainDb hc
           \<and> SetHead (Number (last hs)) (Some f) hc
               = Some (Inr (hc', map (\<lambda>x. (Hash x, Number x)) (butlast hs),
                            [rewind_batch f (butlast hs)]))
           \<and> chainDb hc'
               = WriteHeadHeaderHash (batch_Write (chainDb hc) (rewind_batch f (butlast hs)))
                   (Hash (last hs))
           \<and> CurrentHeader hc' = Some (last hs)
           \<and> currentHeaderHash hc' = Hash (last hs)
           \<and> map_of (chainDb hc') headHeaderKey = Some (HashVal (Hash (last hs)))
           \<and> (\<forall>x \<in> set (butlast hs).
                 map_of (chainDb hc1) (headerKey (Number x) (Hash x)) = Some (HeaderVal x)
                 \<and> map_of (chainDb hc') (headerKey (Number x) (Hash x)) = None
                 \<and> map_of (chainDb hc') (headerNumberKey (Hash x)) = None
                 \<and> map_of (chainDb hc') (headerHashKey (Number x)) = None
                 \<and> (\<forall>k \<in> set (f (Hash x) (Number x)).
                       k \<noteq> headHeaderKey \<longrightarrow> map_of (chainDb hc') k = None))
           \<and> (\<forall>k. k \<notin> set (rewind_batch f (butlast hs)) \<and> k \<noteq> headHeaderKey
                    \<longrightarrow> map_of (chainDb hc') k = map_of (chainDb hc) k)
           \<and> map (\<lambda>x. unat (Number x)) (butlast hs)
               = rev [Suc (unat (Number (last hs))) ..< Suc (unat (Number (hd hs)))]"
proof -
  let ?h = "Number (last hs)"
  let ?B = "rewind_batch f (butlast hs)"
  have lk: "linked hs" and ne: "hs \<noteq> []"
    using seg by (simp_all add: canonical_segment_def)
  have B: "header_deletions (Some f) (butlast hs)
             @ map (\<lambda>x. headerHashKey (Number x)) (butlast hs) = ?B"
    by (simp add: rewind_batch_def header_deletions_def callback_keys_def)
  from SetHead_on_segment [OF seg len, of "Some f"] obtain hc1 where
    c: "SetHead_loop ?h (Some f) (hc, [], [])
          = Some (hc1, header_deletions (Some f) (butlast hs),
                  map (\<lambda>x. (Hash x, Number x)) (butlast hs))"
    and db: "chainDb hc1 = chainDb hc"
    and r: "SetHead ?h (Some f) hc
              = Some (Inr (hc1\<lparr>currentHeaderHash := Hash (last hs),
                             chainDb := WriteHeadHeaderHash (batch_Write (chainDb hc) ?B)
                                          (Hash (last hs))\<rparr>,
                           map (\<lambda>x. (Hash x, Number x)) (butlast hs), [?B]))"
    unfolding B callback_calls_def by auto
  let ?hc' = "hc1\<lparr>currentHeaderHash := Hash (last hs),
                 chainDb := WriteHeadHeaderHash (batch_Write (chainDb hc) ?B) (Hash (last hs))\<rparr>"
  have above: "\<forall>x \<in> set (butlast hs). ?h < Number x" by (rule linked_butlast_above [OF lk])
  have "CurrentHeader hc1 = Some (last hs)"
    using SetHead_loop_segment [OF seg order_refl above, of "Some f" "[]" "[]"] c by auto
  then have cur: "CurrentHeader ?hc' = Some (last hs)" by (simp add: CurrentHeader_def)
  have look: "map_of (chainDb ?hc') k
                = (if k = headHeaderKey then Some (HashVal (Hash (last hs)))
                   else if k \<in> set ?B then None else map_of (chainDb hc) k)" for k
    by (simp add: WriteHeadHeaderHash_def map_of_db_Put map_of_batch_Write)
  have removed: "map_of (chainDb hc1) (headerKey (Number x) (Hash x)) = Some (HeaderVal x)
                 \<and> map_of (chainDb ?hc') (headerKey (Number x) (Hash x)) = None
                 \<and> map_of (chainDb ?hc') (headerNumberKey (Hash x)) = None
                 \<and> map_of (chainDb ?hc') (headerHashKey (Number x)) = None
                 \<and> (\<forall>k \<in> set (f (Hash x) (Number x)).
                       k \<noteq> headHeaderKey \<longrightarrow> map_of (chainDb ?hc') k = None)"
    if x: "x \<in> set (butlast hs)" for x
  proof -
    have "x \<in> set hs" using x by (rule in_set_butlastD)
    then have stored: "map_of (chainDb hc1) (headerKey (Number x) (Hash x)) = Some (HeaderVal x)"
      using seg db by (simp add: canonical_segment_def)
    have k1: "headerKey (Number x) (Hash x) \<in> set ?B"
      and k2: "headerNumberKey (Hash x) \<in> set ?B"
      and k3: "headerHashKey (Number x) \<in> set ?B"
      and k4: "set (f (Hash x) (Number x)) \<subseteq> set ?B"
      using x by (auto simp add: rewind_batch_def)
    have "map_of (chainDb ?hc') (headerKey (Number x) (Hash x)) = None"
      unfolding look using k1 by simp
    moreover have "map_of (chainDb ?hc') (headerNumberKey (Hash x)) = None"
      unfolding look using k2 by simp
    moreover have "map_of (chainDb ?hc') (headerHashKey (Number x)) = None"
      unfolding look using k3 by simp
    moreover have "\<forall>k \<in> set (f (Hash x) (Number x)).
                     k \<noteq> headHeaderKey \<longrightarrow> map_of (chainDb ?hc') k = None"
      unfolding look using k4 by auto
    ultimately show ?thesis using stored by blast
  qed
  have frame: "\<forall>k. k \<notin> set ?B \<and> k \<noteq> headHeaderKey
                 \<longrightarrow> map_of (chainDb ?hc') k = map_of (chainDb hc) k"
    unfolding look by simp
  have headkey: "map_of (chainDb ?hc') headHeaderKey = Some (HashVal (Hash (last hs)))"
    unfolding look by simp
  have db': "chainDb ?hc' = WriteHeadHeaderHash (batch_Write (chainDb hc) ?B) (Hash (last hs))"
    by simp
  have chh: "currentHeaderHash ?hc' = Hash (last hs)" by simp
  note heights = linked_removed_heights [OF lk ne]
  show ?thesis
    apply (rule exI [of _ hc1])
    apply (rule exI [of _ ?hc'])
    using c db r db' cur chh headkey removed frame heights
    apply blast
    done
qed

theorem SetHead_callback_once_per_height_witness:
  "canonical_segment example_chain example_segment
   \<and> 2 \<le> length example_segment
   \<and> SetHead 5 (Some example_callback) example_chain
       = Some (Inr (example_rewound,
                    [(1010, 10), (1009, 9), (1008, 8), (1007, 7), (1006, 6)],
                    [[otherKey ''body'', headerKey 10 1010, headerNumberKey 1010,
                      otherKey ''body'', headerKey 9 1009, headerNumberKey 1009,
                      otherKey ''body'', headerKey 8 1008, headerNumberKey 1008,
                      otherKey ''body'', headerKey 7 1007, headerNumberKey 1007,
                      otherKey ''body'', headerKey 6 1006, headerNumberKey 1006,
                      headerHashKey 10, headerHashKey 9, headerHashKey 8, headerHashKey 7,
                      headerHashKey 6]]))
   \<and> map_of (chainDb example_chain) (headerKey 7 1007) = Some (HeaderVal (example_header 7))
   \<and> map_of (chainDb example_rewound) (headerKey 7 1007) = None
   \<and> map_of (chainDb example_rewound) (headerNumberKey 1007) = None
   \<and> map_of (chainDb example_rewound) (headerHashKey 7) = None
   \<and> map_of (chainDb example_rewound) (otherKey ''body'') = None
   \<and> map_of (chainDb example_rewound) (headerKey 5 1005) = Some (HeaderVal (example_header 5))
   \<and> map_of (chainDb example_rewound) headHeaderKey = Some (HashVal 1005)
   \<and> CurrentHeader example_rewound = Some (example_header 5)
   \<and> map (\<lambda>x. unat (Number x)) (butlast example_segment) = rev [6..<11]"
proof -
  have h1: "canonical_segment example_chain example_segment" by code_simp
  have h2: "2 \<le> length example_segment" by code_simp
  have l: "last example_segment = example_header 5" "Number (example_header 5) = 5"
    "Number (hd example_segment) = 10" "Hash (example_header 5) = 1005"
    by code_simp+
  have calls: "map (\<lambda>x. (Hash x, Number x)) (butlast example_segment)
                 = [(1010, 10), (1009, 9), (1008, 8), (1007, 7), (1006, 6)]" by code_simp
  have batch: "rewind_batch example_callback (butlast example_segment)
                 = [otherKey ''body'', headerKey 10 1010, headerNumberKey 1010,
                    otherKey ''body'', headerKey 9 1009, headerNumberKey 1009,
                    otherKey ''body'', headerKey 8 1008, headerNumberKey 1008,
                    otherKey ''body'', headerKey 7 1007, headerNumberKey 1007,
                    otherKey ''body'', headerKey 6 1006, headerNumberKey 1006,
                    headerHashKey 10, headerHashKey 9, headerHashKey 8, headerHashKey 7,
                    headerHashKey 6]" by code_simp
  have x7: "example_header 7 \<in> set (butlast example_segment)"
    "Number (example_header 7) = 7" "Hash (example_header 7) = 1007"
    "otherKey ''body'' \<in> set (example_callback 1007 7)" by code_simp+
  have k5: "headerKey 5 1005 \<notin> set (rewind_batch example_callback (butlast example_segment))"
    "map_of (chainDb example_chain) (headerKey 5 1005) = Some (HeaderVal (example_header 5))"
    by code_simp+
  from SetHead_callback_once_per_height [OF h1 h2, of example_callback] obtain hc1 hc' where
    r: "SetHead 5 (Some example_callback) example_chain
          = Some (Inr (hc', map (\<lambda>x. (Hash x, Number x)) (butlast example_segment),
                       [rewind_batch example_callback (butlast example_segment)]))"
    and same: "chainDb (hc1 :: HeaderChain) = chainDb example_chain"
    and cur: "CurrentHeader hc' = Some (example_header 5)"
    and hk: "map_of (chainDb hc') headHeaderKey = Some (HashVal 1005)"
    and gone: "\<forall>x \<in> set (butlast example_segment).
                 map_of (chainDb hc1) (headerKey (Number x) (Hash x)) = Some (HeaderVal x)
                 \<and> map_of (chainDb hc') (headerKey (Number x) (Hash x)) = None
                 \<and> map_of (chainDb hc') (headerNumberKey (Hash x)) = None
                 \<and> map_of (chainDb hc') (headerHashKey (Number x)) = None
                 \<and> (\<forall>k \<in> set (example_callback (Hash x) (Number x)).
                       k \<noteq> headHeaderKey \<longrightarrow> map_of (chainDb hc') k = None)"
    and frame: "\<forall>k. k \<notin> set (rewind_batch example_callback (butlast example_segment))
                       \<and> k \<noteq> headHeaderKey
                    \<longrightarrow> map_of (chainDb hc') k = map_of (chainDb example_chain) k"
    and heights: "map (\<lambda>x. unat (Number x)) (butlast example_segment)
                    = rev [Suc (unat (5 :: 64 word)) ..< Suc (unat (10 :: 64 word))]"
    unfolding l by blast
  have rew: "example_rewound = hc'" using r by (simp add: example_rewound_def)
  have g7: "map_of (chainDb example_chain) (headerKey 7 1007) = Some (HeaderVal (example_header 7))"
    "map_of (chainDb hc') (headerKey 7 1007) = None"
    "map_of (chainDb hc') (headerNumberKey 1007) = None"
    "map_of (chainDb hc') (headerHashKey 7) = None"
    "map_of (chainDb hc') (otherKey ''body'') = None"
    using gone [rule_format, OF x7(1)] x7(4) same unfolding x7(2,3) by auto
  have g5: "map_of (chainDb hc') (headerKey 5 1005) = Some (HeaderVal (example_header 5))"
    using frame k5 by simp
  have hts: "map (\<lambda>x. unat (Number x)) (butlast example_segment) = rev [6..<11]"
    using heights by simp
  show ?thesis
    unfolding rew using h1 h2 r g7 g5 hk cur hts unfolding calls batch by simp
qed

lemma ReadHeadHeaderHash_written: "ReadHeadHeaderHash (WriteHeadHeaderHash db h) = h"
  by (simp add: ReadHeadHeaderHash_def WriteHeadHeaderHash_def map_of_db_Put)

lemma SetHead_loop_missing_parent:
  assumes "CurrentHeader hc = Some hdr" and "head < Number hdr"
    and "fst (GetHeader hc (ParentHash hdr) (Number hdr - 1)) = None"
  shows "\<exists>hc1 b1 calls. SetHead_loop head delFn (hc, [], []) = Some (hc1, b1, calls)
           \<and> CurrentHeader hc1 = None"
proof -
  obtain hc1 where g: "GetHeader hc (ParentHash hdr) (Number hdr - 1) = (None, hc1)"
    using assms(3) by (cases "GetHeader hc (ParentHash hdr) (Number hdr - 1)") auto
  have stop: "SetHead_loop head delFn (hc1\<lparr>currentHeader := None\<rparr>, b, calls)
          = Some (hc1\<lparr>currentHeader := None\<rparr>, b, calls)" for b calls
    by (subst SetHead_loop.simps) (simp add: CurrentHeader_def)
  show ?thesis
    using assms(1,2) g stop
    by (subst SetHead_loop.simps) (simp add: Let_def CurrentHeader_def)
qed

text \<open>
  C5. If the first loop of \<open>SetHead\<close> ends with no current header (it met a header whose
  parent is not to be found) and the chain has a genesis header, then \<open>SetHead\<close> returns
  with the genesis header as the current header, and its hash both in
  \<open>currentHeaderHash\<close> and as the persisted head-header hash.
\<close>

theorem SetHead_falls_back_to_genesis:
  assumes "SetHead_loop head delFn (hc, [], []) = Some (hc1, b1, calls)"
    and "CurrentHeader hc1 = None"
    and "genesisHeader hc = Some g"
  shows "\<exists>hc' commits.
           SetHead head delFn hc = Some (Inr (hc', calls, commits))
           \<and> CurrentHeader hc' = Some g
           \<and> currentHeaderHash hc' = Hash g
           \<and> ReadHeadHeaderHash (chainDb hc') = Hash g"
proof -
  have "genesisHeader hc1 = Some g"
    using SetHead_loop_post [OF assms(1)] assms(3) by simp
  then show ?thesis
    using assms(1,2)
    by (simp add: SetHead_def Let_def CurrentHeader_def ReadHeadHeaderHash_written)
qed

theorem SetHead_falls_back_to_genesis_witness:
  "SetHead_loop 1 None (broken_chain, [], [])
     = Some (broken_chain\<lparr>currentHeader := None\<rparr>, [headerKey 2 1002, headerNumberKey 1002], [])
   \<and> CurrentHeader (broken_chain\<lparr>currentHeader := None\<rparr>) = None
   \<and> genesisHeader broken_chain = Some (example_header 0)
   \<and> (\<exists>hc' commits.
         SetHead 1 None broken_chain = Some (Inr (hc', [], commits))
         \<and> CurrentHeader hc' = Some (example_header 0)
         \<and> currentHeaderHash hc' = Hash (example_header 0)
         \<and> ReadHeadHeaderHash (chainDb hc') = Hash (example_header 0))"
proof -
  have h1: "SetHead_loop 1 None (broken_chain, [], [])
              = Some (broken_chain\<lparr>currentHeader := None\<rparr>,
                      [headerKey 2 1002, headerNumberKey 1002], [])" by code_simp
  have h2: "CurrentHeader (broken_chain\<lparr>currentHeader := None\<rparr>) = None" by code_simp
  have h3: "genesisHeader broken_chain = Some (example_header 0)" by code_simp
  from SetHead_falls_back_to_genesis [OF h1 h2 h3] show ?thesis using h1 h2 h3 by blast
qed

lemma SetHead_at_or_above:
  assumes "CurrentHeader hc = Some hdr" and "Number hdr \<le> head"
  shows "SetHead head delFn hc
           = Some (Inr (hc\<lparr>currentHeaderHash := Hash hdr,
                          chainDb := WriteHeadHeaderHash (chainDb hc) (Hash hdr)\<rparr>, [], [[]]))
         \<and> (\<forall>k. k \<noteq> headHeaderKey \<longrightarrow>
                map_of (WriteHeadHeaderHash (chainDb hc) (Hash hdr)) k = map_of (chainDb hc) k)
         \<and> ReadHeadHeaderHash (WriteHeadHeaderHash (chainDb hc) (Hash hdr)) = Hash hdr"
proof -
  have nl: "\<not> head < Number hdr" using assms(2) by auto
  have loop: "SetHead_loop head delFn (hc, [], []) = Some (hc, [], [])"
    using assms(1) nl by (subst SetHead_loop.simps) simp
  have canon: "SetHead_canonical head (Number hdr) [] = []"
    using nl by (subst SetHead_canonical.simps) simp
  have "SetHead head delFn hc
           = Some (Inr (hc\<lparr>currentHeaderHash := Hash hdr,
                          chainDb := WriteHeadHeaderHash (chainDb hc) (Hash hdr)\<rparr>, [], [[]]))"
    using assms(1) loop canon by (simp add: SetHead_def Let_def)
  moreover have "\<forall>k. k \<noteq> headHeaderKey \<longrightarrow>
                map_of (WriteHeadHeaderHash (chainDb hc) (Hash hdr)) k = map_of (chainDb hc) k"
    by (simp add: WriteHeadHeaderHash_def map_of_db_Put)
  ultimately show ?thesis by (simp add: ReadHeadHeaderHash_written)
qed

text \<open>
  C10, as the code has it. With the current header at height \<open>H \<le> h\<close>, \<open>SetHead h\<close>
  returns without calling the callback, and the one batch it writes is empty; the caches,
  the genesis header and the current header are as before. Its last step still writes the
  head-header hash: the store is changed at that key and no other, and the persisted
  head-header hash is the hash of the current header afterwards, whatever it was before.
\<close>

theorem SetHead_not_below_head:
  assumes "CurrentHeader hc = Some hdr" and "Number hdr \<le> head"
  shows "\<exists>hc'. SetHead head delFn hc = Some (Inr (hc', [], [[]]))
           \<and> CurrentHeader hc' = Some hdr
           \<and> genesisHeader hc' = genesisHeader hc
           \<and> headerCache hc' = headerCache hc \<and> numberCache hc' = numberCache hc
           \<and> (\<forall>k. k \<noteq> headHeaderKey \<longrightarrow> map_of (chainDb hc') k = map_of (chainDb hc) k)
           \<and> ReadHeadHeaderHash (chainDb hc') = Hash hdr"
  using SetHead_at_or_above [OF assms, of delFn] assms(1) by (simp add: CurrentHeader_def)

theorem SetHead_not_below_head_witness:
  "CurrentHeader example_chain = Some (example_header 10)
   \<and> Number (example_header 10) \<le> 12
   \<and> (\<exists>hc'. SetHead 12 (Some example_callback) example_chain = Some (Inr (hc', [], [[]]))
         \<and> CurrentHeader hc' = Some (example_header 10)
         \<and> genesisHeader hc' = genesisHeader example_chain
         \<and> headerCache hc' = headerCache example_chain
         \<and> numberCache hc' = numberCache example_chain
         \<and> (\<forall>k. k \<noteq> headHeaderKey \<longrightarrow>
               map_of (chainDb hc') k = map_of (chainDb example_chain) k)
         \<and> ReadHeadHeaderHash (chainDb hc') = Hash (example_header 10))"
proof -
  have h1: "CurrentHeader example_chain = Some (example_header 10)" by code_simp
  have h2: "Number (example_header 10) \<le> 12" by code_simp
  from SetHead_not_below_head [OF h1 h2, of "Some example_callback"]
  show ?thesis using h1 h2 by blast
qed

text \<open>
  The claim as it is written (the persisted head hash is unchanged) fails on a chain just
  built by \<open>NewHeaderChain\<close> from a store whose head-header pointer is ahead of its head
  block: the current header is the genesis header, \<open>SetHead 0\<close> is a call with
  \<open>h \<ge> H\<close>, and it moves the persisted head-header hash from header 1 to the genesis
  header.
\<close>

theorem SetHead_not_below_head_counterexample:
  "NewHeaderChain ahead_store (Some 1) = Inr ahead_chain
   \<and> CurrentHeader ahead_chain = Some (example_header 0)
   \<and> Number (example_header 0) \<le> 0
   \<and> ReadHeadHeaderHash (chainDb ahead_chain) = 1001
   \<and> SetHead 0 None ahead_chain
       = Some (Inr (ahead_chain\<lparr>currentHeaderHash := 1000,
                                chainDb := WriteHeadHeaderHash (chainDb ahead_chain) 1000\<rparr>,
                    [], [[]]))
   \<and> ReadHeadHeaderHash (WriteHeadHeaderHash (chainDb ahead_chain) 1000) = 1000"
  by code_simp

lemma WriteHeadHeaderHash_twice:
  "WriteHeadHeaderHash (WriteHeadHeaderHash db h) h = WriteHeadHeaderHash db h"
  by (simp add: WriteHeadHeaderHash_def db_Put_def)

lemma SetHead_second_call:
  assumes "SetHead head delFn hc = Some (Inr (hc1, calls1, commits1))"
    and "genesisHeader hc = Some g" and "Number g = 0"
  shows "SetHead head delFn hc1 = Some (Inr (hc1, [], [[]]))"
proof -
  from SetHead_result [OF assms(1)] obtain hc0 b0 cur where
    loop: "SetHead_loop head delFn (hc, [], []) = Some (hc0, b0, calls1)"
    and cur: "(case CurrentHeader hc0 of None \<Rightarrow> genesisHeader hc0 | Some hdr \<Rightarrow> Some hdr) = Some cur"
    and hc1: "hc1 = hc0\<lparr>chainDb := WriteHeadHeaderHash (batch_Write (chainDb hc0) (hd commits1)) (Hash cur),
                      currentHeader := Some cur, currentHeaderHash := Hash cur\<rparr>"
    by blast
  have post: "genesisHeader hc0 = Some g"
    "\<forall>hdr. CurrentHeader hc0 = Some hdr \<longrightarrow> Number hdr \<le> head"
    using SetHead_loop_post [OF loop] assms(2) by simp_all
  have le: "Number cur \<le> head"
  proof (cases "CurrentHeader hc0")
    case None
    then have "cur = g" using cur post(1) by simp
    then show ?thesis using assms(3) by simp
  next
    case (Some hdr)
    then show ?thesis using cur post(2) by simp
  qed
  have c1: "CurrentHeader hc1 = Some cur" using hc1 by (simp add: CurrentHeader_def)
  have same: "hc1\<lparr>currentHeaderHash := Hash cur,
                chainDb := WriteHeadHeaderHash (chainDb hc1) (Hash cur)\<rparr> = hc1"
    using hc1 by (simp add: WriteHeadHeaderHash_twice)
  from SetHead_at_or_above [OF c1 le, of delFn] show ?thesis unfolding same by simp
qed

lemma ReadHeader_known:
  "ReadHeader (chainDb hc) h n = Some x \<Longrightarrow> (h, x) \<in> set (known hc)"
proof -
  assume "ReadHeader (chainDb hc) h n = Some x"
  then have "map_of (chainDb hc) (headerKey n h) = Some (HeaderVal x)"
    by (auto simp add: ReadHeader_def split: option.splits dbval.splits)
  then have "(headerKey n h, HeaderVal x) \<in> set (chainDb hc)" by (rule map_of_SomeD)
  then show ?thesis by (force simp add: known_def)
qed

lemma GetHeader_known:
  assumes "GetHeader hc h n = (r, hc')"
  shows "set (known hc') \<subseteq> set (known hc) \<and> (\<forall>x. r = Some x \<longrightarrow> (h, x) \<in> set (known hc))
         \<and> (r = None \<longrightarrow> hc' = hc)"
proof (cases "map_of (headerCache hc) h")
  case (Some v)
  then have in_cache: "(h, v) \<in> set (headerCache hc)" by (rule map_of_SomeD)
  have "r = Some v" and "hc' = hc\<lparr>headerCache := (h, v) # filter (\<lambda>e. fst e \<noteq> h) (headerCache hc)\<rparr>"
    using assms Some by (auto simp add: GetHeader_def lru_Get_def)
  then show ?thesis using in_cache by (auto simp add: known_def)
next
  case None
  show ?thesis
  proof (cases "ReadHeader (chainDb hc) h n")
    case None
    then show ?thesis using assms \<open>map_of (headerCache hc) h = None\<close>
      by (auto simp add: GetHeader_def lru_Get_def)
  next
    case (Some x)
    have k: "(h, x) \<in> set (known hc)" using Some by (rule ReadHeader_known)
    have "r = Some x"
      and hc': "hc' = hc\<lparr>headerCache := lru_Add headerCacheLimit (headerCache hc) h x\<rparr>"
      using assms Some \<open>map_of (headerCache hc) h = None\<close>
      by (auto simp add: GetHeader_def lru_Get_def)
    have "set (lru_Add headerCacheLimit (headerCache hc) h x) \<subseteq> insert (h, x) (set (headerCache hc))"
      by (auto simp add: lru_Add_def simp del: take_Suc_Cons dest!: in_set_takeD)
    then have "set (known hc') \<subseteq> insert (h, x) (set (known hc))"
      using hc' by (auto simp add: known_def)
    then show ?thesis using k \<open>r = Some x\<close> by auto
  qed
qed

lemma GetBlockNumber_known: "GetBlockNumber hc h = (r, hc') \<Longrightarrow> known hc' = known hc"
  by (auto simp add: GetBlockNumber_def lru_Get_def known_def split: option.splits)

lemma linked_no_repeat:
  assumes "valid_on K"
  shows "linked (x # hs) \<Longrightarrow> (Hash x, x) \<in> set K \<Longrightarrow> \<forall>y \<in> set hs. (Hash y, y) \<in> set K \<Longrightarrow>
         (Hash z, z) \<in> set K \<Longrightarrow> unat (Number x) \<le> unat (Number z) \<Longrightarrow> Hash z \<notin> Hash ` set hs"
proof (induction hs arbitrary: x)
  case Nil
  then show ?case by simp
next
  case (Cons y hs)
  have lk: "ParentHash x = Hash y" "unat (Number x) = Suc (unat (Number y))" "linked (y # hs)"
    using Cons.prems(1) by simp_all
  have "Hash z \<noteq> Hash y"
  proof
    assume "Hash z = Hash y"
    then have "fst (Hash z, z) = ParentHash (snd (Hash x, x))" using lk(1) by simp
    then have "unat (Number x) = Suc (unat (Number z))"
      using assms Cons.prems(2,4) unfolding valid_on_def by (metis snd_conv)
    then show False using Cons.prems(5) by simp
  qed
  moreover have "Hash z \<notin> Hash ` set hs"
    using Cons.IH [OF lk(3)] Cons.prems lk(2) by simp
  ultimately show ?case by simp
qed

lemma GetBlockHashesFromHash_loop_walk:
  assumes "valid_on K"
  shows "set (known hc) \<subseteq> set K \<Longrightarrow> (Hash header, header) \<in> set K \<Longrightarrow>
         GetBlockHashesFromHash_loop fuel header hc chain = (chain', hc') \<Longrightarrow>
         \<exists>hs. chain' = chain @ map Hash hs \<and> length hs \<le> fuel \<and> linked (header # hs)
              \<and> (\<forall>y \<in> set hs. (Hash y, y) \<in> set K)
              \<and> (length hs < fuel \<longrightarrow>
                    Number (last (header # hs)) = 0
                    \<or> fst (GetHeader hc' (ParentHash (last (header # hs)))
                             (Number (last (header # hs)) - 1)) = None)"
proof (induction fuel arbitrary: header hc chain)
  case 0
  then show ?case by (intro exI [of _ "[]"]) simp
next
  case (Suc fuel)
  obtain r hc1 where g: "GetHeader hc (ParentHash header) (Number header - 1) = (r, hc1)"
    by (cases "GetHeader hc (ParentHash header) (Number header - 1)") auto
  note gk = GetHeader_known [OF g]
  show ?case
  proof (cases r)
    case None
    then have "hc1 = hc" and "chain' = chain" and "hc' = hc"
      using gk g Suc.prems(3) by auto
    then show ?thesis using g None by (intro exI [of _ "[]"]) simp
  next
    case (Some header1)
    have k1: "(ParentHash header, header1) \<in> set K" using gk Some Suc.prems(1) by auto
    then have h1: "Hash header1 = ParentHash header"
      using assms unfolding valid_on_def by (metis fst_conv snd_conv)
    have "fst (ParentHash header, header1) = ParentHash (snd (Hash header, header))" by simp
    then have n1: "unat (Number header) = Suc (unat (Number header1))"
      using assms Suc.prems(2) k1 unfolding valid_on_def by (metis snd_conv)
    have k1': "(Hash header1, header1) \<in> set K" using k1 h1 by simp
    have sub1: "set (known hc1) \<subseteq> set K" using gk Suc.prems(1) by auto
    show ?thesis
    proof (cases "Number header1 = 0")
      case True
      then have "chain' = chain @ [ParentHash header]"
        using Suc.prems(3) g Some by (simp add: Let_def)
      then show ?thesis using True h1 n1 k1' by (intro exI [of _ "[header1]"]) simp
    next
      case False
      then have "GetBlockHashesFromHash_loop fuel header1 hc1 (chain @ [ParentHash header])
                   = (chain', hc')"
        using Suc.prems(3) g Some by (simp add: Let_def)
      from Suc.IH [OF sub1 k1' this] obtain hs where
        hs: "chain' = (chain @ [ParentHash header]) @ map Hash hs" "length hs \<le> fuel"
          "linked (header1 # hs)" "\<forall>y \<in> set hs. (Hash y, y) \<in> set K"
          "length hs < fuel \<longrightarrow>
             Number (last (header1 # hs)) = 0
             \<or> fst (GetHeader hc' (ParentHash (last (header1 # hs)))
                      (Number (last (header1 # hs)) - 1)) = None"
        by blast
      show ?thesis
        using hs h1 n1 k1' by (intro exI [of _ "header1 # hs"]) simp
    qed
  qed
qed

lemma GetBlockHashesFromHash_returned:
  assumes "store_valid hc" and "GetBlockHashesFromHash mem hc h maxn = Inr (chain, hc')"
  shows "length chain \<le> unat maxn \<and> h \<notin> set chain
         \<and> (case fst (GetHeaderByHash hc h) of
               None \<Rightarrow> chain = []
             | Some header \<Rightarrow>
                 (\<exists>hs. chain = map Hash hs \<and> linked (header # hs)
                    \<and> (\<forall>y \<in> set hs. (Hash y, y) \<in> set (known hc))
                    \<and> (length chain < unat maxn \<longrightarrow>
                          Number (last (header # hs)) = 0
                          \<or> fst (GetHeader hc' (ParentHash (last (header # hs)))
                                   (Number (last (header # hs)) - 1)) = None)))"
proof -
  have v: "valid_on (known hc)" using assms(1) by (simp add: store_valid_def)
  obtain r hc1 where g: "GetHeaderByHash hc h = (r, hc1)"
    by (cases "GetHeaderByHash hc h") auto
  show ?thesis
  proof (cases r)
    case None
    then show ?thesis using assms(2) g by (auto simp add: GetBlockHashesFromHash_def)
  next
    case (Some header)
    obtain n hc0 where bn: "GetBlockNumber hc h = (Some n, hc0)" and gh: "GetHeader hc0 h n = (Some header, hc1)"
      using g Some by (auto simp add: GetHeaderByHash_def split: prod.splits option.splits)
    have k0: "known hc0 = known hc" using bn by (rule GetBlockNumber_known)
    note gk = GetHeader_known [OF gh]
    have kh: "(h, header) \<in> set (known hc)" using gk k0 by simp
    then have hh: "Hash header = h" using v unfolding valid_on_def by (metis fst_conv snd_conv)
    have sub: "set (known hc1) \<subseteq> set (known hc)" using gk k0 by simp
    have loop: "GetBlockHashesFromHash_loop (unat maxn) header hc1 [] = (chain, hc')"
      using assms(2) g Some
      by (auto simp add: GetBlockHashesFromHash_def split: option.splits)
    from GetBlockHashesFromHash_loop_walk [OF v sub _ loop] kh hh obtain hs where
      hs: "chain = map Hash hs" "length hs \<le> unat maxn" "linked (header # hs)"
        "\<forall>y \<in> set hs. (Hash y, y) \<in> set (known hc)"
        "length hs < unat maxn \<longrightarrow>
           Number (last (header # hs)) = 0
           \<or> fst (GetHeader hc' (ParentHash (last (header # hs)))
                    (Number (last (header # hs)) - 1)) = None"
      by auto
    have "Hash header \<notin> Hash ` set hs"
      using linked_no_repeat [OF v hs(3) _ hs(4), of header] kh hh by simp
    then have "h \<notin> set chain" using hs(1) hh by simp
    then show ?thesis using hs g Some by auto
  qed
qed

lemma GetBlockHashesFromHash_make_fails:
  "fst (GetHeaderByHash hc h) = Some header \<Longrightarrow> makeslice mem hashSize (uint maxn) = Some err
   \<Longrightarrow> GetBlockHashesFromHash mem hc h maxn = Inl err"
  by (cases "GetHeaderByHash hc h") (simp add: GetBlockHashesFromHash_def)

lemma GetBlockHashesFromHash_unknown_start:
  "fst (GetHeaderByHash hc h) = None
   \<Longrightarrow> GetBlockHashesFromHash mem hc h maxn = Inr ([], snd (GetHeaderByHash hc h))"
  by (cases "GetHeaderByHash hc h") (simp add: GetBlockHashesFromHash_def)

text \<open>
  C7, as the code has it. The slice of the result is made with the capacity \<open>maxn\<close>, and
  for a known start hash a bound that \<open>make\<close> refuses ends the call in a panic. Where
  \<open>make\<close> returns the slice, on a chain whose known headers are valid (each is found
  under its own hash, and a header's number is its parent's plus one),
  \<open>GetBlockHashesFromHash\<close> returns, and the hashes it returns for a start hash \<open>h\<close> and
  a bound \<open>maxn\<close> are at most \<open>maxn\<close> and never contain \<open>h\<close>. With no header for \<open>h\<close> the
  result is empty. Otherwise they are the hashes of known headers \<open>hs\<close> that continue the
  start header as a linked list: each is the parent of the one before, with the number
  one less, newest first. When fewer than \<open>maxn\<close> hashes come back, the last header
  reached has the number zero or its parent is not to be found.
\<close>

theorem GetBlockHashesFromHash_walk:
  assumes "store_valid hc" and "makeslice mem hashSize (uint maxn) = None"
  shows "\<exists>chain hc'.
           GetBlockHashesFromHash mem hc h maxn = Inr (chain, hc')
           \<and> length chain \<le> unat maxn \<and> h \<notin> set chain
           \<and> (case fst (GetHeaderByHash hc h) of
                 None \<Rightarrow> chain = []
               | Some header \<Rightarrow>
                   (\<exists>hs. chain = map Hash hs \<and> linked (header # hs)
                      \<and> (\<forall>y \<in> set hs. (Hash y, y) \<in> set (known hc))
                      \<and> (length chain < unat maxn \<longrightarrow>
                            Number (last (header # hs)) = 0
                            \<or> fst (GetHeader hc' (ParentHash (last (header # hs)))
                                     (Number (last (header # hs)) - 1)) = None)))"
proof -
  obtain r hc1 where g: "GetHeaderByHash hc h = (r, hc1)"
    by (cases "GetHeaderByHash hc h") auto
  have "\<exists>p. GetBlockHashesFromHash mem hc h maxn = Inr p"
    using g assms(2) by (cases r) (simp_all add: GetBlockHashesFromHash_def)
  then obtain chain hc' where r: "GetBlockHashesFromHash mem hc h maxn = Inr (chain, hc')"
    by (metis surj_pair)
  from GetBlockHashesFromHash_returned [OF assms(1) r] r show ?thesis by blast
qed

theorem GetBlockHashesFromHash_walk_witness:
  "store_valid example_chain
   \<and> makeslice maxAlloc hashSize (uint (3 :: 64 word)) = None
   \<and> (\<exists>hc'. GetBlockHashesFromHash maxAlloc example_chain 1008 3
               = Inr ([1007, 1006, 1005], hc'))
   \<and> length [1007, 1006, 1005 :: hash] \<le> unat (3 :: 64 word)
   \<and> (1008 :: hash) \<notin> set [1007, 1006, 1005]"
proof -
  have h1: "store_valid example_chain" by code_simp
  have h2: "makeslice maxAlloc hashSize (uint (3 :: 64 word)) = None"
    by (simp add: makeslice_def maxAlloc_def hashSize_def)
  have e: "fst (projr (GetBlockHashesFromHash maxAlloc example_chain 1008 3))
             = [1007, 1006, 1005]" by code_simp
  from GetBlockHashesFromHash_walk [OF h1 h2, of 1008] obtain chain hc' where
    "GetBlockHashesFromHash maxAlloc example_chain 1008 3 = Inr (chain, hc')"
    "length chain \<le> unat (3 :: 64 word)" "1008 \<notin> set chain"
    by blast
  then show ?thesis using h1 h2 e by auto
qed

text \<open>
  The bound \<open>2 ^ 64 - 1\<close> with the start hash of header 8 of the example chain, and
  all the memory the runtime can hand out: the call panics in \<open>make\<close>, and nothing is
  returned.
\<close>

theorem GetBlockHashesFromHash_walk_counterexample:
  "fst (GetHeaderByHash example_chain 1008) = Some (example_header 8)
   \<and> GetBlockHashesFromHash maxAlloc example_chain 1008 18446744073709551615 = Inl MakeSlice"
proof -
  have a: "fst (GetHeaderByHash example_chain 1008) = Some (example_header 8)" by code_simp
  have b: "makeslice maxAlloc hashSize (uint (18446744073709551615 :: 64 word))
             = Some MakeSlice"
    by (simp add: makeslice_def maxAlloc_def hashSize_def)
  show ?thesis using a b
    by (cases "GetHeaderByHash example_chain 1008") (simp add: GetBlockHashesFromHash_def)
qed

subsection \<open>Termination of the rewind, and a second call\<close>

lemma known_currentHeader [simp]: "known (hc\<lparr>currentHeader := c\<rparr>) = known hc"
  by (simp add: known_def)

lemma SetHead_loop_returns_known:
  assumes v: "valid_on K"
  shows "set (known hc) \<subseteq> set K \<Longrightarrow>
         (\<forall>hdr. CurrentHeader hc = Some hdr \<longrightarrow> (Hash hdr, hdr) \<in> set K) \<Longrightarrow>
         \<exists>st'. SetHead_loop head delFn (hc, b, calls) = Some st'"
proof (induction "case CurrentHeader hc of None \<Rightarrow> 0 | Some hdr \<Rightarrow> unat (Number hdr)"
    arbitrary: hc b calls rule: less_induct)
  case less
  show ?case
  proof (cases "CurrentHeader hc")
    case None
    then show ?thesis by (subst SetHead_loop.simps) simp
  next
    case (Some hdr)
    show ?thesis
    proof (cases "head < Number hdr")
      case False
      then show ?thesis using Some by (subst SetHead_loop.simps) simp
    next
      case True
      obtain r hc1 where g: "GetHeader hc (ParentHash hdr) (Number hdr - 1) = (r, hc1)"
        by (cases "GetHeader hc (ParentHash hdr) (Number hdr - 1)") auto
      note gk = GetHeader_known [OF g]
      let ?b2 = "DeleteHeader (case delFn of None \<Rightarrow> b | Some f \<Rightarrow> b @ f (Hash hdr) (Number hdr))
                   (Hash hdr) (Number hdr)"
      let ?calls1 = "case delFn of None \<Rightarrow> calls | Some f \<Rightarrow> calls @ [(Hash hdr, Number hdr)]"
      let ?hc1 = "hc1\<lparr>currentHeader := r\<rparr>"
      have step: "SetHead_loop head delFn (hc, b, calls) = SetHead_loop head delFn (?hc1, ?b2, ?calls1)"
        using Some True g by (subst SetHead_loop.simps) (simp add: Let_def)
      have sub1: "set (known ?hc1) \<subseteq> set K" using gk less.prems(1) by auto
      show ?thesis
      proof (cases r)
        case None
        have "SetHead_loop head delFn (?hc1, ?b2, ?calls1) = Some (?hc1, ?b2, ?calls1)"
          using None by (subst SetHead_loop.simps) (simp add: CurrentHeader_def)
        then show ?thesis unfolding step by simp
      next
        case (Some p)
        have kp: "(ParentHash hdr, p) \<in> set K" using gk Some less.prems(1) by auto
        then have hp: "Hash p = ParentHash hdr"
          using v unfolding valid_on_def by (metis fst_conv snd_conv)
        have kh: "(Hash hdr, hdr) \<in> set K" using less.prems(2) \<open>CurrentHeader hc = Some hdr\<close> by simp
        have "fst (ParentHash hdr, p) = ParentHash (snd (Hash hdr, hdr))" by simp
        then have n: "unat (Number hdr) = Suc (unat (Number p))"
          using v kh kp unfolding valid_on_def by (metis snd_conv)
        have smaller: "(case CurrentHeader ?hc1 of None \<Rightarrow> 0 | Some hdr \<Rightarrow> unat (Number hdr))
                         < (case CurrentHeader hc of None \<Rightarrow> 0 | Some hdr \<Rightarrow> unat (Number hdr))"
          using Some \<open>CurrentHeader hc = Some hdr\<close> n by (simp add: CurrentHeader_def)
        have cur1: "\<forall>hdr. CurrentHeader ?hc1 = Some hdr \<longrightarrow> (Hash hdr, hdr) \<in> set K"
          using Some kp hp by (simp add: CurrentHeader_def)
        from less.hyps [OF smaller sub1 cur1] show ?thesis unfolding step .
      qed
    qed
  qed
qed

lemma SetHead_loop_returns:
  assumes "store_valid hc"
  shows "\<exists>st'. SetHead_loop head delFn (hc, b, calls) = Some st'"
proof -
  have v: "valid_on (known hc)" using assms by (simp add: store_valid_def)
  show ?thesis
  proof (cases "CurrentHeader hc")
    case None
    then show ?thesis by (subst SetHead_loop.simps) simp
  next
    case (Some hdr)
    show ?thesis
    proof (cases "head < Number hdr")
      case False
      then show ?thesis using Some by (subst SetHead_loop.simps) simp
    next
      case True
      obtain r hc1 where g: "GetHeader hc (ParentHash hdr) (Number hdr - 1) = (r, hc1)"
        by (cases "GetHeader hc (ParentHash hdr) (Number hdr - 1)") auto
      note gk = GetHeader_known [OF g]
      let ?b2 = "DeleteHeader (case delFn of None \<Rightarrow> b | Some f \<Rightarrow> b @ f (Hash hdr) (Number hdr))
                   (Hash hdr) (Number hdr)"
      let ?calls1 = "case delFn of None \<Rightarrow> calls | Some f \<Rightarrow> calls @ [(Hash hdr, Number hdr)]"
      let ?hc1 = "hc1\<lparr>currentHeader := r\<rparr>"
      have step: "SetHead_loop head delFn (hc, b, calls) = SetHead_loop head delFn (?hc1, ?b2, ?calls1)"
        using Some True g by (subst SetHead_loop.simps) (simp add: Let_def)
      have sub1: "set (known ?hc1) \<subseteq> set (known hc)" using gk by auto
      have cur1: "\<forall>x. CurrentHeader ?hc1 = Some x \<longrightarrow> (Hash x, x) \<in> set (known hc)"
      proof (intro allI impI)
        fix x assume "CurrentHeader ?hc1 = Some x"
        then have "r = Some x" by (simp add: CurrentHeader_def)
        then have k: "(ParentHash hdr, x) \<in> set (known hc)" using gk by auto
        then have "Hash x = ParentHash hdr"
          using v unfolding valid_on_def by (metis fst_conv snd_conv)
        then show "(Hash x, x) \<in> set (known hc)" using k by simp
      qed
      from SetHead_loop_returns_known [OF v sub1 cur1] show ?thesis unfolding step .
    qed
  qed
qed

lemma SetHead_returns:
  assumes "store_valid hc" and "genesisHeader hc = Some g"
  shows "\<exists>hc' calls commits. SetHead head delFn hc = Some (Inr (hc', calls, commits))"
proof -
  from SetHead_loop_returns [OF assms(1), of head delFn "[]" "[]"] obtain hc1 b1 calls where
    loop: "SetHead_loop head delFn (hc, [], []) = Some (hc1, b1, calls)"
    by (metis prod_cases3)
  have "genesisHeader hc1 = Some g" using SetHead_loop_post [OF loop] assms(2) by simp
  then show ?thesis using loop
    by (cases "CurrentHeader hc1") (simp_all add: SetHead_def Let_def CurrentHeader_def)
qed

text \<open>
  C6. On a chain whose genesis header has the number zero. If its known headers are valid
  then \<open>SetHead h\<close> returns. And whenever \<open>SetHead h\<close> returns a chain \<open>hc1\<close>, \<open>SetHead h\<close>
  on \<open>hc1\<close> returns \<open>hc1\<close> again (the same current head, store and caches, so the same
  persisted head hash and the same number-to-hash index), calls the callback not once,
  and the batch it writes is empty.
\<close>

theorem SetHead_idempotent:
  assumes "genesisHeader hc = Some g" and "Number g = 0"
  shows "(store_valid hc \<longrightarrow>
            (\<exists>hc1 calls1 commits1. SetHead head delFn hc = Some (Inr (hc1, calls1, commits1))))
         \<and> (\<forall>hc1 calls1 commits1.
               SetHead head delFn hc = Some (Inr (hc1, calls1, commits1)) \<longrightarrow>
               SetHead head delFn hc1 = Some (Inr (hc1, [], [[]])))"
  using SetHead_returns [OF _ assms(1), of head delFn] SetHead_second_call [OF _ assms]
  by blast

theorem SetHead_idempotent_witness:
  "genesisHeader example_chain = Some (example_header 0)
   \<and> Number (example_header 0) = 0
   \<and> store_valid example_chain
   \<and> SetHead 5 (Some example_callback) example_chain
       = Some (Inr (example_rewound,
                    callback_calls (Some example_callback) (butlast example_segment),
                    [header_deletions (Some example_callback) (butlast example_segment)
                     @ map (\<lambda>x. headerHashKey (Number x)) (butlast example_segment)]))
   \<and> SetHead 5 (Some example_callback) example_rewound = Some (Inr (example_rewound, [], [[]]))"
proof -
  have h1: "genesisHeader example_chain = Some (example_header 0)" by code_simp
  have h2: "Number (example_header 0) = 0" by code_simp
  have v: "store_valid example_chain" by code_simp
  have r: "SetHead 5 (Some example_callback) example_chain
     = Some (Inr (example_rewound,
                  callback_calls (Some example_callback) (butlast example_segment),
                  [header_deletions (Some example_callback) (butlast example_segment)
                   @ map (\<lambda>x. headerHashKey (Number x)) (butlast example_segment)]))"
    by code_simp
  from SetHead_idempotent [OF h1 h2, where head = 5 and delFn = "Some example_callback"] r
  have "SetHead 5 (Some example_callback) example_rewound = Some (Inr (example_rewound, [], [[]]))"
    by blast
  then show ?thesis using h1 h2 v r by blast
qed

end
